theory Spec2Isabelle
  imports Complex_Main "HOL-Library.Sublist" "HOL-Library.AList"
begin

section \<open>Message model (services/providers/types.ts)\<close>

datatype message_role = System | User | Assistant

datatype detail = High | Low | Auto

datatype cache_control = Ephemeral

text \<open>
  A content part is one of \<open>TextPart\<close>, \<open>ImagePart\<close>, \<open>VideoPart\<close>, \<open>AudioPart\<close>.
  Only \<open>TextPart\<close> declares the optional \<open>cache_control\<close> field; \<open>None\<close> is the
  absent field.
\<close>

datatype part =
    TextPart string "cache_control option"
  | ImagePart string detail
  | VideoPart string detail
  | AudioPart string detail

datatype message_content = Str string | Parts "part list"

record message =
  role :: message_role
  content :: message_content

record plugin =
  plugin_id :: string
  max_results :: "nat option"
  search_prompt :: "string option"

record api_options =
  temperature :: "real option"
  max_tokens :: "nat option"
  model :: "string option"
  plugins :: "plugin list option"

text \<open>
  \<open>ChatCompletionRequest\<close>: every optional key of the interface is an option, and
  \<open>None\<close> is a key that the object literal does not have (JSON.stringify then emits
  nothing for it).
\<close>

record chat_completion_request =
  req_model :: string
  req_messages :: "message list"
  req_temperature :: "real option"
  req_max_tokens :: "nat option"
  req_stream :: "bool option"
  req_usage :: "bool option"
  req_plugins :: "plugin list option"

section \<open>Request builder (services/providers/openrouter.ts)\<close>

definition is_large_text :: "part \<Rightarrow> bool" where
  "is_large_text p = (case p of TextPart t c \<Rightarrow> length t > 4000 | _ \<Rightarrow> False)"

definition set_cache_control :: "part \<Rightarrow> part" where
  "set_cache_control p = (case p of TextPart t c \<Rightarrow> TextPart t (Some Ephemeral) | _ \<Rightarrow> p)"

definition has_marker :: "part \<Rightarrow> bool" where
  "has_marker p = (case p of TextPart t c \<Rightarrow> c \<noteq> None | _ \<Rightarrow> False)"

text \<open>
  The loop \<open>for (let i = parts.length - 1; i >= 0; i--)\<close>: the first argument is
  \<open>i + 1\<close>, so \<open>0\<close> is the loop's exit and \<open>Suc i\<close> inspects \<open>parts[i]\<close>; the
  \<open>break\<close> is the branch without a recursive call.
\<close>

fun mark_from :: "nat \<Rightarrow> part list \<Rightarrow> part list" where
  "mark_from 0 parts = parts"
| "mark_from (Suc i) parts =
     (if is_large_text (parts ! i) then parts[i := set_cache_control (parts ! i)]
      else mark_from i parts)"

text \<open>
  The callback of \<open>messages.map\<close>. The copy \<open>m.content.map((p) => ({ ...p }))\<close> keeps
  every field of every part, a marker the caller put there included; on values it is
  the identity.
\<close>

definition cache_message :: "message \<Rightarrow> message" where
  "cache_message m =
     (case content m of
        Parts ps \<Rightarrow> m\<lparr>content := Parts (mark_from (length ps) ps)\<rparr>
      | Str s \<Rightarrow>
          if length s > 4000 then m\<lparr>content := Parts [TextPart s (Some Ephemeral)]\<rparr>
          else m)"

definition cachedMessages :: "message list \<Rightarrow> message list" where
  "cachedMessages messages = map cache_message messages"

definition default_model :: string where
  "default_model = ''x-ai/grok-4''"

text \<open>\<open>options.model || "x-ai/grok-4"\<close>: an absent and an empty model are both falsy.\<close>

definition model_or_default :: "api_options \<Rightarrow> string" where
  "model_or_default options =
     (case model options of None \<Rightarrow> default_model
      | Some m \<Rightarrow> if m = [] then default_model else m)"

definition send_request :: "message list \<Rightarrow> api_options \<Rightarrow> chat_completion_request" where
  "send_request messages options =
     \<lparr> req_model = model_or_default options,
       req_messages = cachedMessages messages,
       req_temperature = Some (case temperature options of None \<Rightarrow> 7 / 10 | Some t \<Rightarrow> t),
       req_max_tokens = Some (case max_tokens options of None \<Rightarrow> 8192 | Some n \<Rightarrow> n),
       req_stream = None,
       req_usage = Some True,
       req_plugins = None \<rparr>"

definition stream_request :: "message list \<Rightarrow> api_options \<Rightarrow> chat_completion_request" where
  "stream_request messages options =
     \<lparr> req_model = model_or_default options,
       req_messages = cachedMessages messages,
       req_temperature = Some (case temperature options of None \<Rightarrow> 7 / 10 | Some t \<Rightarrow> t),
       req_max_tokens = Some (case max_tokens options of None \<Rightarrow> 8192 | Some n \<Rightarrow> n),
       req_stream = Some True,
       req_usage = Some True,
       req_plugins = None \<rparr>"

subsection \<open>The options chosen by handleSendMessage (contexts/ChatContext.tsx, lib/utils.ts, lib/constants.ts)\<close>

definition WEB_SEARCH_PROMPT :: string where
  "WEB_SEARCH_PROMPT = ''Search for factual, verifiable information from multiple reputable sources, avoiding opinion, advocacy, or activist framing. Include diverse perspectives where relevant, and prioritize original reporting, primary data, and official statements.''"

definition DEFAULT_WEB_PLUGIN :: plugin where
  "DEFAULT_WEB_PLUGIN = \<lparr> plugin_id = ''web'', max_results = Some 1, search_prompt = Some WEB_SEARCH_PROMPT \<rparr>"

definition ensureOnlineSlug :: "string \<Rightarrow> string" where
  "ensureOnlineSlug m = (if sublist '':online'' m then m else m @ '':online'')"

definition getVisionModel :: "string \<Rightarrow> string" where
  "getVisionModel currentModel =
     (if currentModel = ''z-ai/glm-4.5v'' then ''z-ai/glm-4.5v'' else ''x-ai/grok-vision-beta'')"

definition handleSendMessage_options :: "bool \<Rightarrow> bool \<Rightarrow> string \<Rightarrow> real \<Rightarrow> nat \<Rightarrow> api_options" where
  "handleSendMessage_options webSearchActive shouldUseVisionModel currentModel modelTemperature maxTokens =
     \<lparr> temperature = Some modelTemperature,
       max_tokens = Some maxTokens,
       model = Some (if shouldUseVisionModel then getVisionModel currentModel
                     else if webSearchActive then ensureOnlineSlug currentModel
                     else currentModel),
       plugins = (if webSearchActive then Some [DEFAULT_WEB_PLUGIN] else None) \<rparr>"

section \<open>Strings\<close>

text \<open>
  A \<open>string\<close> stands for a JavaScript string, one \<open>char\<close> for one code unit; the
  code units are those below 256, which a \<open>char\<close> can hold. The literals of the code are
  ASCII. \<open>js_whitespace\<close> is what \<open>String.prototype.trim\<close> removes among these code
  units: TAB, LF, VT, FF, CR, SPACE and NO-BREAK SPACE (U+00A0). The other white space
  of \<open>trim\<close> (U+1680, U+2000 to U+200A, U+2028, U+2029, U+202F, U+205F, U+3000, U+FEFF)
  lies above 255 and does not occur in a \<open>string\<close>.
\<close>

definition js_whitespace :: "char \<Rightarrow> bool" where
  "js_whitespace c = (c \<in> {CHR 0x09, CHR 0x0A, CHR 0x0B, CHR 0x0C, CHR 0x0D, CHR 0x20, CHR 0xA0})"

definition trim :: "string \<Rightarrow> string" where
  "trim s = rev (dropWhile js_whitespace (rev (dropWhile js_whitespace s)))"

definition toLowerCase :: "string \<Rightarrow> string" where
  "toLowerCase s =
     map (\<lambda>c. if (65::nat) \<le> of_char c \<and> (of_char c :: nat) \<le> 90
              then char_of (of_char c + (32::nat)) else c) s"

definition startsWith :: "string \<Rightarrow> string \<Rightarrow> bool" where
  "startsWith s p = (take (length p) s = p)"

text \<open>\<open>s.split('\n')\<close>: the pieces between the line feeds, one more than there are line feeds.\<close>

fun split_newline :: "string \<Rightarrow> string list" where
  "split_newline [] = [[]]"
| "split_newline (c # cs) =
     (if c = CHR 0x0A then [] # split_newline cs
      else (case split_newline cs of [] \<Rightarrow> [[c]] | l # ls \<Rightarrow> (c # l) # ls))"

fun digits :: "nat \<Rightarrow> string" where
  "digits n = (if n < 10 then [char_of (48 + n)] else digits (n div 10) @ [char_of (48 + n mod 10)])"

declare digits.simps [simp del]

section \<open>Callbacks and the trace of a call\<close>

text \<open>
  What a call does to the outside is recorded in order: a \<open>fetch\<close> with the bearer
  token and the body it sends, an \<open>await delay(ms)\<close>, and each callback of
  \<open>StreamCallbacks\<close> it invokes.
\<close>

datatype event =
    Fetch string chat_completion_request
  | Delay nat
  | OnChunk string
  | OnReasoningChunk string
  | OnComplete
  | OnError string

definition MAX_RETRIES :: nat where
  "MAX_RETRIES = 2"

definition RETRY_DELAY :: nat where
  "RETRY_DELAY = 1000"

section \<open>API key and error responses (services/providers/openrouter.ts, services/api.ts)\<close>

definition prepareApiKey :: "string \<Rightarrow> string + string" where
  "prepareApiKey apiKey =
     (if apiKey = [] then Inl ''API Key is required''
      else let cleanKey = trim apiKey in
        if startsWith (toLowerCase cleanKey) ''bearer '' then Inr (drop 7 cleanKey)
        else Inr cleanKey)"

definition xai_prepareApiKey :: "string \<Rightarrow> string + string" where
  "xai_prepareApiKey apiKey =
     (if apiKey = [] then Inl ''API Key is required''
      else let cleanKey = trim apiKey in
        if length cleanKey < 10 then Inl ''API Key appears to be invalid (too short)''
        else if startsWith (toLowerCase cleanKey) ''bearer '' then Inr (drop 7 cleanKey)
        else Inr cleanKey)"

text \<open>
  A response as the code reads it. \<open>error_message\<close> is \<open>data?.error?.message\<close> of the
  response text, \<open>None\<close> when the text is no JSON or the value is falsy; \<open>text_delay\<close> is
  the time \<open>await response.text()\<close> takes. Both are read of a response that is not ok
  only.
\<close>

record 'b response =
  status :: nat
  statusText :: string
  text_delay :: nat
  error_message :: "string option"
  body :: 'b

definition ok :: "('b, 'c) response_scheme \<Rightarrow> bool" where
  "ok res = (200 \<le> status res \<and> status res \<le> 299)"

text \<open>The message of the error that \<open>handleApiError\<close> throws.\<close>

definition handleApiError :: "('b, 'c) response_scheme \<Rightarrow> string" where
  "handleApiError res =
     (if status res = 401 then ''Authentication failed: Invalid API key.''
      else if status res = 429 then ''Rate limit exceeded. Please try again later.''
      else (case error_message res of
              Some m \<Rightarrow> m
            | None \<Rightarrow> ''Error: '' @ digits (status res) @ '' '' @ statusText res))"

section \<open>Stream decoder (openRouterProvider.streamResponse, the read loop)\<close>

text \<open>
  \<open>JSON.parse(data)\<close> followed by the two optional chains
  \<open>parsed.choices?.[0]?.delta?.content\<close> and \<open>...?.delta?.reasoning\<close> is a parameter of
  the model: \<open>None\<close> when one of them throws (the empty \<open>catch\<close> then drops the line),
  else the two values, each \<open>None\<close> when undefined.
\<close>

record delta =
  delta_content :: "string option"
  delta_reasoning :: "string option"

type_synonym json_parser = "string \<Rightarrow> delta option"

text \<open>\<open>if (x)\<close> on an optional string: undefined and the empty string are falsy.\<close>

definition truthy :: "string option \<Rightarrow> bool" where
  "truthy x = (case x of None \<Rightarrow> False | Some v \<Rightarrow> v \<noteq> [])"

text \<open>
  The callbacks of one parsed frame: the reasoning chunk first, and only when the caller
  registered \<open>onReasoningChunk\<close> (the flag \<open>rc\<close>), then the answer chunk.
\<close>

definition frame_events :: "bool \<Rightarrow> delta \<Rightarrow> event list" where
  "frame_events rc d =
     (if truthy (delta_reasoning d) \<and> rc then [OnReasoningChunk (the (delta_reasoning d))] else [])
     @ (if truthy (delta_content d) then [OnChunk (the (delta_content d))] else [])"

text \<open>
  The body of the loop \<open>for (const line of lines)\<close>: the callbacks it invokes, in
  order, and whether it left the function through \<open>onComplete(); return\<close>.
\<close>

definition process_line :: "json_parser \<Rightarrow> bool \<Rightarrow> string \<Rightarrow> event list \<times> bool" where
  "process_line P rc line =
     (if trim line = [] then ([], False)
      else if \<not> startsWith line ''data: '' then ([], False)
      else let data = drop 6 line in
        if data = ''[DONE]'' then ([OnComplete], True)
        else (case P data of
                None \<Rightarrow> ([], False)
              | Some d \<Rightarrow> (frame_events rc d, False)))"

fun process_lines :: "json_parser \<Rightarrow> bool \<Rightarrow> string list \<Rightarrow> event list \<times> bool" where
  "process_lines P rc [] = ([], False)"
| "process_lines P rc (line # lines) =
     (let r = process_line P rc line in
      if snd r then r
      else (fst r @ fst (process_lines P rc lines), snd (process_lines P rc lines)))"

section \<open>Time, timers and one streaming attempt\<close>

text \<open>
  The state of a streaming call: the clock in milliseconds, the pending 30-second timers
  (in the order they were set), the variable \<open>aborted\<close> of the call that is running, the
  number of fetches issued (the index of the next physical attempt) and the trace. A
  timer is its fire time and whether it was set by the call that is running: \<open>aborted\<close>
  is a variable of one call of \<open>streamResponse\<close>, and the handler of a timer that an
  earlier call left pending assigns the variable of that earlier call. The trace is one
  for all calls: it records every callback that is invoked, also by such a handler.
\<close>

record run_state =
  now :: nat
  timers :: "(nat \<times> bool) list"
  aborted :: bool
  fetched :: nat
  trace :: "event list"

definition timeout_message :: string where
  "timeout_message = ''Request timed out after 30 seconds''"

text \<open>
  The handler given to \<open>setTimeout\<close>:
  \<open>controller.abort(); aborted = true; onError(new Error(...))\<close>, for a timer that the
  running call set (\<open>own\<close>) or that an earlier call left pending. The abort settles the
  fetch of the handler's own attempt when that is still pending, which \<open>do_attempt\<close>
  accounts for.
\<close>

definition fire :: "bool \<Rightarrow> run_state \<Rightarrow> run_state" where
  "fire own s = s\<lparr>aborted := (own \<or> aborted s), trace := trace s @ [OnError timeout_message]\<rparr>"

text \<open>
  An \<open>await\<close> that settles at time \<open>t\<close>: every timer due by then has fired, in order,
  before the code goes on.
\<close>

definition advance :: "nat \<Rightarrow> run_state \<Rightarrow> run_state" where
  "advance t s =
     (fold (\<lambda>x. fire (snd x)) (filter (\<lambda>x. fst x \<le> t) (timers s)) s)
       \<lparr>now := t, timers := filter (\<lambda>x. t < fst x) (timers s)\<rparr>"

text \<open>\<open>clearTimeout(timeoutId)\<close>, for the timer that the running call set for time \<open>t\<close>.\<close>

definition clearTimeout :: "nat \<Rightarrow> run_state \<Rightarrow> run_state" where
  "clearTimeout t s = s\<lparr>timers := remove1 (t, True) (timers s)\<rparr>"

definition emit :: "event list \<Rightarrow> run_state \<Rightarrow> run_state" where
  "emit evs s = s\<lparr>trace := trace s @ evs\<rparr>"

text \<open>
  What the network does in one physical attempt, with times in milliseconds: each read
  of the body takes its delay and yields a chunk of decoded text; then the body closes,
  or the read fails. \<open>TextDecoder\<close> in stream mode is taken to decode a byte stream to
  the same text however the bytes are cut, so a cut of the bytes is a cut of the text.
  A body ends: a read that never settles is not modelled.
\<close>

datatype stream_end = Closes nat | Breaks nat string

record stream_body =
  reads :: "(nat \<times> string) list"
  ending :: stream_end

text \<open>
  The fetch rejects after some time (a network failure), never settles by itself, or
  resolves after some time with a response whose body is null or a stream.
\<close>

datatype stream_result =
    Rejects nat string
  | Hangs
  | Responds nat "stream_body option response"

datatype outcome = Returned | Thrown string

definition abort_message :: string where
  "abort_message = ''The user aborted a request.''"

text \<open>The loop \<open>while (!done && !aborted)\<close> and the \<open>onComplete(); return\<close> after it.\<close>

fun read_loop :: "json_parser \<Rightarrow> bool \<Rightarrow> (nat \<times> string) list \<Rightarrow> stream_end \<Rightarrow> string \<Rightarrow>
    run_state \<Rightarrow> outcome \<times> run_state" where
  "read_loop P rc [] en buffer s =
     (if aborted s then (Returned, emit [OnComplete] s)
      else (case en of
              Closes d \<Rightarrow> (Returned, emit [OnComplete] (advance (now s + d) s))
            | Breaks d msg \<Rightarrow> (Thrown msg, advance (now s + d) s)))"
| "read_loop P rc ((d, v) # rest) en buffer s =
     (if aborted s then (Returned, emit [OnComplete] s)
      else let s' = advance (now s + d) s;
               lines = split_newline (buffer @ v);
               r = process_lines P rc (butlast lines)
           in if snd r then (Returned, emit (fst r) s')
              else read_loop P rc rest en (last lines) (emit (fst r) s'))"

text \<open>
  The body of the \<open>try\<close>: the timer is set, the fetch is issued, and the timer is
  cleared only on the path where the fetch resolves.
\<close>

definition do_attempt :: "json_parser \<Rightarrow> bool \<Rightarrow> string \<Rightarrow> chat_completion_request \<Rightarrow>
    stream_result \<Rightarrow> run_state \<Rightarrow> outcome \<times> run_state" where
  "do_attempt P rc key req fr s0 =
     (let t0 = now s0;
          s1 = s0\<lparr>timers := timers s0 @ [(t0 + 30000, True)], fetched := Suc (fetched s0),
                  trace := trace s0 @ [Fetch key req]\<rparr>
      in case fr of
           Hangs \<Rightarrow> (Thrown abort_message, advance (t0 + 30000) s1)
         | Rejects d msg \<Rightarrow>
             if d < 30000 then (Thrown msg, advance (t0 + d) s1)
             else (Thrown abort_message, advance (t0 + 30000) s1)
         | Responds d res \<Rightarrow>
             if d < 30000 then
               (let s2 = clearTimeout (t0 + 30000) (advance (t0 + d) s1) in
                if aborted s2 then (Returned, s2)
                else if \<not> ok res then (Thrown (handleApiError res), advance (now s2 + text_delay res) s2)
                else (case body res of
                        None \<Rightarrow> (Thrown ''Response body is null'', s2)
                      | Some b \<Rightarrow> read_loop P rc (reads b) (ending b) [] s2))
             else (Thrown abort_message, advance (t0 + 30000) s1))"

section \<open>Retry controller, streaming (openRouterProvider.streamResponse, xaiService.streamResponse)\<close>

text \<open>
  The loop \<open>while (retries <= MAX_RETRIES && !aborted)\<close> with its \<open>catch\<close>. \<open>env k\<close> is
  what the network does in the physical attempt number \<open>k\<close>, counted from 0.
\<close>

function stream_loop :: "json_parser \<Rightarrow> bool \<Rightarrow> string \<Rightarrow> chat_completion_request \<Rightarrow>
    (nat \<Rightarrow> stream_result) \<Rightarrow> nat \<Rightarrow> run_state \<Rightarrow> run_state" where
  "stream_loop P rc key req env retries s =
     (if retries \<le> MAX_RETRIES \<and> \<not> aborted s then
        (case do_attempt P rc key req (env (fetched s)) s of
           (Returned, s') \<Rightarrow> s'
         | (Thrown err, s') \<Rightarrow>
             if aborted s' then s'
             else if retries \<ge> MAX_RETRIES then emit [OnError err] s'
             else stream_loop P rc key req env (retries + 1)
                    (advance (now s' + RETRY_DELAY * (retries + 1))
                       (emit [Delay (RETRY_DELAY * (retries + 1))] s')))
      else s)"
  by pat_completeness auto
termination
  by (relation "measure (\<lambda>(P, rc, key, req, env, retries, s). Suc MAX_RETRIES - retries)") auto

declare stream_loop.simps [simp del]

text \<open>
  The provider's \<open>streamResponse\<close>. The promise it returns is rejected (\<open>Some\<close> of the
  message) only by \<open>prepareApiKey\<close>; \<open>let aborted = false\<close> is the call's own variable,
  so the timers that are pending when the call is entered are those of earlier calls.
\<close>

definition openRouter_streamResponse :: "json_parser \<Rightarrow> message list \<Rightarrow> string \<Rightarrow> bool \<Rightarrow>
    api_options \<Rightarrow> (nat \<Rightarrow> stream_result) \<Rightarrow> run_state \<Rightarrow> string option \<times> run_state" where
  "openRouter_streamResponse P messages apiKey rc options env s =
     (case prepareApiKey apiKey of
        Inl e \<Rightarrow> (Some e, s)
      | Inr cleanApiKey \<Rightarrow>
          (None, stream_loop P rc cleanApiKey (stream_request messages options) env 0
                   (s\<lparr>timers := map (\<lambda>x. (fst x, False)) (timers s), aborted := False\<rparr>)))"

section \<open>System message injection (services/api.ts)\<close>

definition formattingText :: string where
  "formattingText = ''Format your responses using Markdown for better readability when appropriate: use *italics* for emphasis, bullet points and numbered lists where appropriate, and code blocks with syntax highlighting (```language) for code snippets.''"

definition default_system_content :: string where
  "default_system_content =
     ''You are an AI assistant. You are helpful, concise, and provide accurate information. '' @ formattingText"

fun findIndex :: "('a \<Rightarrow> bool) \<Rightarrow> 'a list \<Rightarrow> nat option" where
  "findIndex p [] = None"
| "findIndex p (x # xs) = (if p x then Some 0 else map_option Suc (findIndex p xs))"

definition addMarkdownFormattingInstructions :: "message list \<Rightarrow> message list" where
  "addMarkdownFormattingInstructions messages =
     (case findIndex (\<lambda>msg. role msg = System) messages of
        None \<Rightarrow>
          \<lparr>role = System, content = Str default_system_content\<rparr> # messages
      | Some i \<Rightarrow>
          (case content (messages ! i) of
             Str existingContent \<Rightarrow>
               if \<not> sublist ''Format your responses using Markdown'' existingContent
               then messages[i := (messages ! i)\<lparr>content := Str (existingContent @ '' '' @ formattingText)\<rparr>]
               else messages
           | Parts ps \<Rightarrow> messages))"

section \<open>Retry controller, buffered (openRouterProvider.sendMessage, xaiService.sendMessage)\<close>

text \<open>
  What the network does in one physical attempt of \<open>sendMessage\<close>: the fetch rejects,
  or it resolves with a response whose body is the answer text, or the message of the
  error that \<open>res.json()\<close> or \<open>data.choices[0].message.content\<close> throws. No timer is set
  in \<open>sendMessage\<close>, so the state is the number of fetches issued and the trace; a fetch
  that never settles, which nothing in \<open>sendMessage\<close> would end, is not modelled.
\<close>

datatype send_result =
    Fails string
  | Answers "(string + string) response"

record send_state =
  sent :: nat
  log :: "event list"

text \<open>The body of the \<open>try\<close>: \<open>Inl\<close> is the message of the error thrown.\<close>

definition send_attempt :: "send_result \<Rightarrow> string + string" where
  "send_attempt sr =
     (case sr of
        Fails msg \<Rightarrow> Inl msg
      | Answers res \<Rightarrow> if \<not> ok res then Inl (handleApiError res) else body res)"

function send_loop :: "string \<Rightarrow> chat_completion_request \<Rightarrow> (nat \<Rightarrow> send_result) \<Rightarrow> nat \<Rightarrow>
    string option \<Rightarrow> send_state \<Rightarrow> (string + string) \<times> send_state" where
  "send_loop key req env retries lastError s =
     (if retries \<le> MAX_RETRIES then
        (let s1 = s\<lparr>sent := Suc (sent s), log := log s @ [Fetch key req]\<rparr> in
         case send_attempt (env (sent s)) of
           Inr answer \<Rightarrow> (Inr answer, s1)
         | Inl err \<Rightarrow>
             if retries + 1 > MAX_RETRIES
             then (Inl (''Failed to get response from OpenRouter API: '' @ err), s1)
             else send_loop key req env (retries + 1) (Some err)
                    (s1\<lparr>log := log s1 @ [Delay (RETRY_DELAY * (retries + 1))]\<rparr>))
      else (Inl (''Failed to get response from OpenRouter API: ''
                 @ (case lastError of None \<Rightarrow> ''Unknown error'' | Some e \<Rightarrow> e)), s))"
  by pat_completeness auto
termination
  by (relation "measure (\<lambda>(key, req, env, retries, lastError, s). Suc MAX_RETRIES - retries)") auto

declare send_loop.simps [simp del]

text \<open>The promise of \<open>sendMessage\<close>: \<open>Inl\<close> is a rejection with that message.\<close>

definition openRouter_sendMessage :: "message list \<Rightarrow> string \<Rightarrow> api_options \<Rightarrow>
    (nat \<Rightarrow> send_result) \<Rightarrow> send_state \<Rightarrow> (string + string) \<times> send_state" where
  "openRouter_sendMessage messages apiKey options env s =
     (case prepareApiKey apiKey of
        Inl e \<Rightarrow> (Inl e, s)
      | Inr cleanApiKey \<Rightarrow> send_loop cleanApiKey (send_request messages options) env 0 None s)"

function xai_send_loop :: "message list \<Rightarrow> string \<Rightarrow> api_options \<Rightarrow> (nat \<Rightarrow> send_result) \<Rightarrow>
    nat \<Rightarrow> send_state \<Rightarrow> (string + string) \<times> send_state" where
  "xai_send_loop messages cleanApiKey options env retries s =
     (if retries \<le> MAX_RETRIES then
        (case openRouter_sendMessage (addMarkdownFormattingInstructions messages) cleanApiKey options env s of
           (Inr answer, s') \<Rightarrow> (Inr answer, s')
         | (Inl err, s') \<Rightarrow>
             if retries \<ge> MAX_RETRIES
             then (Inl (''Failed to get response from OpenRouter API: '' @ err), s')
             else xai_send_loop messages cleanApiKey options env (retries + 1)
                    (s'\<lparr>log := log s' @ [Delay (RETRY_DELAY * (retries + 1))]\<rparr>))
      else (Inl ''Failed to get response from OpenRouter API after retries'', s))"
  by pat_completeness auto
termination
  by (relation "measure (\<lambda>(messages, cleanApiKey, options, env, retries, s). Suc MAX_RETRIES - retries)") auto

declare xai_send_loop.simps [simp del]

definition xai_sendMessage :: "message list \<Rightarrow> string \<Rightarrow> api_options \<Rightarrow>
    (nat \<Rightarrow> send_result) \<Rightarrow> send_state \<Rightarrow> (string + string) \<times> send_state" where
  "xai_sendMessage messages apiKey options env s =
     (case xai_prepareApiKey apiKey of
        Inl e \<Rightarrow> (Inl (''API Key error: '' @ e), s)
      | Inr cleanApiKey \<Rightarrow> xai_send_loop messages cleanApiKey options env 0 s)"

section \<open>xaiService.streamResponse\<close>

text \<open>
  The wrapper's loop \<open>while (retries <= MAX_RETRIES && !streamAborted)\<close>;
  \<open>streamAborted\<close> is never assigned. The call reports only through the callbacks.
\<close>

function xai_stream_loop :: "json_parser \<Rightarrow> message list \<Rightarrow> string \<Rightarrow> bool \<Rightarrow> api_options \<Rightarrow>
    (nat \<Rightarrow> stream_result) \<Rightarrow> nat \<Rightarrow> run_state \<Rightarrow> run_state" where
  "xai_stream_loop P messages cleanApiKey rc options env retries s =
     (if retries \<le> MAX_RETRIES then
        (case openRouter_streamResponse P (addMarkdownFormattingInstructions messages) cleanApiKey rc
                options env s of
           (None, s') \<Rightarrow> s'
         | (Some err, s') \<Rightarrow>
             if retries \<ge> MAX_RETRIES then emit [OnError err] s'
             else xai_stream_loop P messages cleanApiKey rc options env (retries + 1)
                    (advance (now s' + RETRY_DELAY * (retries + 1))
                       (emit [Delay (RETRY_DELAY * (retries + 1))] s')))
      else s)"
  by pat_completeness auto
termination
  by (relation "measure (\<lambda>(P, messages, cleanApiKey, rc, options, env, retries, s). Suc MAX_RETRIES - retries)") auto

declare xai_stream_loop.simps [simp del]

definition xai_streamResponse :: "json_parser \<Rightarrow> message list \<Rightarrow> string \<Rightarrow> bool \<Rightarrow> api_options \<Rightarrow>
    (nat \<Rightarrow> stream_result) \<Rightarrow> run_state \<Rightarrow> run_state" where
  "xai_streamResponse P messages apiKey rc options env s =
     (case xai_prepareApiKey apiKey of
        Inl e \<Rightarrow> emit [OnError (''API Key error: '' @ e)] s
      | Inr cleanApiKey \<Rightarrow> xai_stream_loop P messages cleanApiKey rc options env 0 s)"

text \<open>
  After the call has returned, the timers it left pending still fire: \<open>settle\<close> lets the
  clock run to the last of them.
\<close>

definition settle :: "run_state \<Rightarrow> run_state" where
  "settle s = advance (fold max (map fst (timers s)) (now s)) s"

definition initial_state :: run_state where
  "initial_state = \<lparr>now = 0, timers = [], aborted = False, fetched = 0, trace = []\<rparr>"

definition initial_send_state :: send_state where
  "initial_send_state = \<lparr>sent = 0, log = []\<rparr>"

section \<open>The decoder as a function of the transcript\<close>

text \<open>
  The lines of a text that end in a line feed, and what the loop over them invokes:
  the last piece of \<open>split\<close> is the partial line, which stays in the buffer.
\<close>

definition complete_lines :: "string \<Rightarrow> string list" where
  "complete_lines text = butlast (split_newline text)"

definition decode :: "json_parser \<Rightarrow> bool \<Rightarrow> string \<Rightarrow> event list \<times> bool" where
  "decode P rc text = process_lines P rc (complete_lines text)"

definition end_events :: "stream_end \<Rightarrow> event list" where
  "end_events en = (case en of Closes d \<Rightarrow> [OnComplete] | Breaks d m \<Rightarrow> [])"

definition end_outcome :: "stream_end \<Rightarrow> outcome" where
  "end_outcome en = (case en of Closes d \<Rightarrow> Returned | Breaks d m \<Rightarrow> Thrown m)"

section \<open>Objects and references\<close>

text \<open>
  Who writes where. A JavaScript value is a primitive or a reference to an object in the
  store; an object is a record of properties or an array. Strings are primitives: no
  operation changes a string in place, so the credential and every string content are
  beyond the reach of any callee, and only objects and arrays can be mutated.
\<close>

datatype jsval = Undefined | JStr string | Ref nat

datatype jsobj = Object "(string \<times> jsval) list" | Array "jsval list"

type_synonym store = "jsobj list"

definition alloc :: "jsobj \<Rightarrow> store \<Rightarrow> nat \<times> store" where
  "alloc obj h = (length h, h @ [obj])"

text \<open>The own properties of an object, which \<open>{ ...v }\<close> copies.\<close>

definition fields_of :: "store \<Rightarrow> jsval \<Rightarrow> (string \<times> jsval) list" where
  "fields_of h v =
     (case v of
        Ref a \<Rightarrow> (if a < length h then (case h ! a of Object fs \<Rightarrow> fs | Array xs \<Rightarrow> []) else [])
      | _ \<Rightarrow> [])"

definition get :: "store \<Rightarrow> jsval \<Rightarrow> string \<Rightarrow> jsval" where
  "get h v k = (case map_of (fields_of h v) k of Some x \<Rightarrow> x | None \<Rightarrow> Undefined)"

text \<open>The assignment \<open>obj.k = x\<close>.\<close>

definition put :: "jsval \<Rightarrow> string \<Rightarrow> jsval \<Rightarrow> store \<Rightarrow> store" where
  "put obj k x h =
     (case obj of
        Ref a \<Rightarrow>
          (if a < length h
           then (case h ! a of Object fs \<Rightarrow> h[a := Object (AList.update k x fs)] | Array xs \<Rightarrow> h)
           else h)
      | _ \<Rightarrow> h)"

text \<open>\<open>Array.isArray(v)\<close> and the elements of the array.\<close>

definition elements :: "store \<Rightarrow> jsval \<Rightarrow> jsval list option" where
  "elements h v =
     (case v of
        Ref a \<Rightarrow> (if a < length h then (case h ! a of Array xs \<Rightarrow> Some xs | Object fs \<Rightarrow> None) else None)
      | _ \<Rightarrow> None)"

text \<open>The elements of \<open>xs.map((x) => ({ ...x }))\<close>: one new object for each element.\<close>

fun copy_all :: "jsval list \<Rightarrow> store \<Rightarrow> jsval list \<times> store" where
  "copy_all [] h = ([], h)"
| "copy_all (x # xs) h =
     (let (a, h1) = alloc (Object (fields_of h x)) h;
          (rs, h2) = copy_all xs h1
      in (Ref a # rs, h2))"

subsection \<open>The cache markers of openRouterProvider, on the store\<close>

definition is_large_text_h :: "store \<Rightarrow> jsval \<Rightarrow> bool" where
  "is_large_text_h h part =
     (get h part ''type'' = JStr ''text''
      \<and> (case get h part ''text'' of JStr t \<Rightarrow> length t > 4000 | _ \<Rightarrow> False))"

text \<open>The loop over \<open>parts\<close> from the end, with \<open>part.cache_control = { type: "ephemeral" }\<close>.\<close>

fun mark_loop :: "nat \<Rightarrow> jsval list \<Rightarrow> store \<Rightarrow> store" where
  "mark_loop 0 parts h = h"
| "mark_loop (Suc i) parts h =
     (if is_large_text_h h (parts ! i)
      then (let (c, h1) = alloc (Object [(''type'', JStr ''ephemeral'')]) h
            in put (parts ! i) ''cache_control'' (Ref c) h1)
      else mark_loop i parts h)"

definition cache_message_h :: "jsval \<Rightarrow> store \<Rightarrow> jsval \<times> store" where
  "cache_message_h m h =
     (case elements h (get h m ''content'') of
        Some ps \<Rightarrow>
          (let (parts, h1) = copy_all ps h;
               (pa, h2) = alloc (Array parts) h1;
               h3 = mark_loop (length parts) parts h2;
               (ma, h4) = alloc (Object (AList.update ''content'' (Ref pa) (fields_of h3 m))) h3
           in (Ref ma, h4))
      | None \<Rightarrow>
          (case get h m ''content'' of
             JStr s \<Rightarrow>
               if length s > 4000
               then (let (c, h1) = alloc (Object [(''type'', JStr ''ephemeral'')]) h;
                         (p, h2) = alloc (Object [(''type'', JStr ''text''), (''text'', JStr s),
                                                  (''cache_control'', Ref c)]) h1;
                         (pa, h3) = alloc (Array [Ref p]) h2;
                         (ma, h4) = alloc (Object (AList.update ''content'' (Ref pa) (fields_of h3 m))) h3
                     in (Ref ma, h4))
               else (m, h)
           | _ \<Rightarrow> (m, h)))"

fun map_cache_message :: "jsval list \<Rightarrow> store \<Rightarrow> jsval list \<times> store" where
  "map_cache_message [] h = ([], h)"
| "map_cache_message (m # ms) h =
     (let (m', h1) = cache_message_h m h;
          (rs, h2) = map_cache_message ms h1
      in (m' # rs, h2))"

definition cachedMessages_h :: "jsval \<Rightarrow> store \<Rightarrow> jsval \<times> store" where
  "cachedMessages_h messages h =
     (case elements h messages of
        Some ms \<Rightarrow>
          (let (rs, h1) = map_cache_message ms h;
               (a, h2) = alloc (Array rs) h1
           in (Ref a, h2))
      | None \<Rightarrow> (messages, h))"

subsection \<open>addMarkdownFormattingInstructions, on the store\<close>

definition addMarkdownFormattingInstructions_h :: "jsval \<Rightarrow> store \<Rightarrow> jsval \<times> store" where
  "addMarkdownFormattingInstructions_h messages h =
     (case elements h messages of
        None \<Rightarrow> (messages, h)
      | Some ms \<Rightarrow>
          (let (updatedMessages, h1) = copy_all ms h;
               (ua, h2) = alloc (Array updatedMessages) h1
           in case findIndex (\<lambda>msg. get h2 msg ''role'' = JStr ''system'') updatedMessages of
                None \<Rightarrow>
                  (let (sa, h3) = alloc (Object [(''role'', JStr ''system''),
                          (''content'', JStr default_system_content)]) h2
                   in (Ref ua, h3[ua := Array (Ref sa # updatedMessages)]))
              | Some i \<Rightarrow>
                  (case get h2 (updatedMessages ! i) ''content'' of
                     JStr existingContent \<Rightarrow>
                       if \<not> sublist ''Format your responses using Markdown'' existingContent
                       then (Ref ua, put (updatedMessages ! i) ''content''
                                       (JStr (existingContent @ '' '' @ formattingText)) h2)
                       else (Ref ua, h2)
                   | _ \<Rightarrow> (Ref ua, h2))))"

subsection \<open>What a whole call does to the store\<close>

text \<open>
  The arguments are taken as typed: on a \<open>messages\<close> that is no array, \<open>messages.map\<close>
  throws before anything is written, and the store stays as it is.

  Every iteration of the provider's retry loop builds \<open>cachedMessages\<close> anew from
  \<open>messages\<close>; everything after that (the request body literal, \<open>JSON.stringify\<close>, the
  log) only reads. So a call of the provider that makes \<open>n\<close> attempts runs the
  transformation \<open>n\<close> times. A call of \<open>xaiService\<close> runs
  \<open>addMarkdownFormattingInstructions\<close> in each iteration of its own loop and hands the
  result to the provider; \<open>ks\<close> lists how many attempts each of these provider calls makes.
\<close>

fun provider_call_h :: "nat \<Rightarrow> jsval \<Rightarrow> store \<Rightarrow> store" where
  "provider_call_h 0 messages h = h"
| "provider_call_h (Suc n) messages h = provider_call_h n messages (snd (cachedMessages_h messages h))"

fun xai_call_h :: "nat list \<Rightarrow> jsval \<Rightarrow> store \<Rightarrow> store" where
  "xai_call_h [] messages h = h"
| "xai_call_h (k # ks) messages h =
     (let (formattedMessages, h1) = addMarkdownFormattingInstructions_h messages h
      in xai_call_h ks messages (provider_call_h k formattedMessages h1))"

subsection \<open>Reading the store as messages\<close>

text \<open>
  What a value of the store is as a value of the message model, \<open>None\<close> when it has not
  the shape of the types in \<open>types.ts\<close>; a present \<open>cache_control\<close> is the ephemeral
  marker. \<open>valid\<close> is a value that is no dangling reference.
\<close>

definition read_detail :: "jsval \<Rightarrow> detail option" where
  "read_detail v =
     (if v = JStr ''high'' then Some High else if v = JStr ''low'' then Some Low
      else if v = JStr ''auto'' then Some Auto else None)"

definition read_media :: "store \<Rightarrow> jsval \<Rightarrow> (string \<times> detail) option" where
  "read_media h v =
     (case get h v ''url'' of
        JStr u \<Rightarrow> map_option (Pair u) (read_detail (get h v ''detail''))
      | _ \<Rightarrow> None)"

definition read_part :: "store \<Rightarrow> jsval \<Rightarrow> part option" where
  "read_part h v =
     (if get h v ''type'' = JStr ''text'' then
        (case get h v ''text'' of
           JStr t \<Rightarrow> Some (TextPart t (if get h v ''cache_control'' = Undefined then None
                                       else Some Ephemeral))
         | _ \<Rightarrow> None)
      else if get h v ''type'' = JStr ''image_url'' then
        map_option (\<lambda>(u, d). ImagePart u d) (read_media h (get h v ''image_url''))
      else if get h v ''type'' = JStr ''video_url'' then
        map_option (\<lambda>(u, d). VideoPart u d) (read_media h (get h v ''video_url''))
      else if get h v ''type'' = JStr ''audio_url'' then
        map_option (\<lambda>(u, d). AudioPart u d) (read_media h (get h v ''audio_url''))
      else None)"

definition read_content :: "store \<Rightarrow> jsval \<Rightarrow> message_content option" where
  "read_content h v =
     (case v of
        JStr s \<Rightarrow> Some (Str s)
      | _ \<Rightarrow> (case elements h v of
                Some ps \<Rightarrow> map_option Parts (those (map (read_part h) ps))
              | None \<Rightarrow> None))"

definition read_role :: "jsval \<Rightarrow> message_role option" where
  "read_role v =
     (if v = JStr ''system'' then Some System else if v = JStr ''user'' then Some User
      else if v = JStr ''assistant'' then Some Assistant else None)"

definition read_message :: "store \<Rightarrow> jsval \<Rightarrow> message option" where
  "read_message h v =
     (case read_role (get h v ''role'') of
        Some r \<Rightarrow> map_option (\<lambda>c. \<lparr>role = r, content = c\<rparr>) (read_content h (get h v ''content''))
      | None \<Rightarrow> None)"

definition read_messages :: "store \<Rightarrow> jsval \<Rightarrow> message list option" where
  "read_messages h v =
     (case elements h v of
        Some ms \<Rightarrow> those (map (read_message h) ms)
      | None \<Rightarrow> None)"

definition valid :: "store \<Rightarrow> jsval \<Rightarrow> bool" where
  "valid h v = (case v of Ref a \<Rightarrow> a < length h | _ \<Rightarrow> True)"

text \<open>A value that is no reference into the store \<open>h0\<close>.\<close>

definition fresh :: "store \<Rightarrow> jsval \<Rightarrow> bool" where
  "fresh h0 v = (case v of Ref a \<Rightarrow> length h0 \<le> a | _ \<Rightarrow> True)"

text \<open>A store with one conversation of one message, whose content is one text part.\<close>

definition sample_store :: "string \<Rightarrow> store" where
  "sample_store t =
     [Array [Ref 1], Object [(''role'', JStr ''user''), (''content'', Ref 2)], Array [Ref 3],
      Object [(''type'', JStr ''text''), (''text'', JStr t)]]"

section \<open>Kinds of attempts\<close>






section \<open>The frames of the scenarios\<close>

definition LF :: string where
  "LF = [CHR 0x0A]"

definition frame_hi :: string where
  \<open>frame_hi = ''{"choices":[{"delta":{"content":"Hi"}}]}''\<close>

definition frame_there :: string where
  \<open>frame_there = ''{"choices":[{"delta":{"content":" there"}}]}''\<close>

definition frame_cut :: string where
  \<open>frame_cut = ''{"choices":[{"delta":{"conte''\<close>

text \<open>
  A parser for the witnesses: it knows the two frames of the scenario and fails on
  everything else, as \<open>JSON.parse\<close> fails on \<open>frame_cut\<close>.
\<close>

definition scenario_parser :: json_parser where
  "scenario_parser data =
     (if data = frame_hi then Some \<lparr>delta_content = Some ''Hi'', delta_reasoning = None\<rparr>
      else if data = frame_there then Some \<lparr>delta_content = Some '' there'', delta_reasoning = None\<rparr>
      else None)"

text \<open>The scenario transcript, delivered frame by frame and cut inside its lines.\<close>

definition cut_reads :: "(nat \<times> string) list" where
  "cut_reads = [(40, ''da''), (25, ''ta: '' @ frame_hi @ LF @ LF @ ''data: '' @ take 17 frame_there),
                (0, drop 17 frame_there @ LF), (10, LF @ ''data: [DO''), (5, ''NE]'' @ LF @ LF)]"

definition whole_reads :: "(nat \<times> string) list" where
  "whole_reads = [(40, ''data: '' @ frame_hi @ LF @ LF), (25, ''data: '' @ frame_there @ LF @ LF),
                  (10, ''data: [DONE]'' @ LF @ LF)]"

text \<open>The conversation, the options and the network of the scenario.\<close>

definition hello_conversation :: "message list" where
  "hello_conversation = [\<lparr>role = User, content = Str ''Hello''\<rparr>]"

definition m1_options :: api_options where
  "m1_options = \<lparr>temperature = None, max_tokens = None, model = Some ''m1'', plugins = None\<rparr>"

definition scenario_env :: "nat \<Rightarrow> stream_result" where
  "scenario_env k = Responds 180 \<lparr>status = 200, statusText = ''OK'', text_delay = 0,
     error_message = None, body = Some \<lparr>reads = whole_reads, ending = Closes 2\<rparr>\<rparr>"

text \<open>A transcript with a cut frame between the two frames, and the same without that line.\<close>

definition sandwich_reads :: "(nat \<times> string) list" where
  "sandwich_reads = [(40, ''data: '' @ frame_hi @ LF @ LF @ ''data: '' @ frame_cut),
                     (25, LF @ LF @ ''data: '' @ frame_there @ LF @ LF)]"

definition healthy_reads :: "(nat \<times> string) list" where
  "healthy_reads = [(30, ''data: '' @ frame_hi @ LF @ LF @ LF @ ''data: '' @ frame_there @ LF @ LF)]"







text \<open>
  A network whose first fetch is rejected and whose second answer streams for half a
  minute; one that rejects every fetch; and a server that answers 500 to every request.
\<close>

definition offline_then_slow_stream :: "nat \<Rightarrow> stream_result" where
  "offline_then_slow_stream k =
     (if k = 0 then Rejects 100 ''Failed to fetch''
      else Responds 200 \<lparr>status = 200, statusText = ''OK'', text_delay = 0, error_message = None,
             body = Some \<lparr>reads = [(1000, ''data: '' @ frame_hi @ LF @ LF),
                                   (29000, ''data: '' @ frame_there @ LF @ LF),
                                   (10, ''data: [DONE]'' @ LF @ LF)],
                          ending = Closes 5\<rparr>\<rparr>)"





definition always_offline :: "nat \<Rightarrow> stream_result" where
  "always_offline k = Rejects 10 ''Failed to fetch''"

definition always_server_error :: "nat \<Rightarrow> send_result" where
  "always_server_error k = Answers \<lparr>status = 500, statusText = ''Internal Server Error'',
     text_delay = 0, error_message = None, body = Inl []\<rparr>"

section \<open>Cache markers\<close>

definition parts_of :: "message \<Rightarrow> part list" where
  "parts_of m = (case content m of Parts ps \<Rightarrow> ps | Str s \<Rightarrow> [])"

definition marked_indices :: "message \<Rightarrow> nat list" where
  "marked_indices m = filter (\<lambda>i. has_marker (parts_of m ! i)) [0 ..< length (parts_of m)]"

definition last_large :: "part list \<Rightarrow> nat \<Rightarrow> bool" where
  "last_large ps j =
     (j < length ps \<and> is_large_text (ps ! j) \<and> \<not> list_ex is_large_text (drop (Suc j) ps))"

lemma mark_from_none:
  "\<not> list_ex is_large_text (take n ps) \<Longrightarrow> n \<le> length ps \<Longrightarrow> mark_from n ps = ps"
proof (induction n)
  case 0
  show ?case by simp
next
  case (Suc n)
  from Suc.prems have n: "n < length ps" by simp
  from Suc.prems n have "\<not> is_large_text (ps ! n)"
    by (simp add: take_Suc_conv_app_nth list_ex_iff)
  moreover from Suc.prems n have "\<not> list_ex is_large_text (take n ps)"
    by (simp add: take_Suc_conv_app_nth list_ex_iff)
  ultimately show ?case using Suc.IH n by simp
qed

lemma mark_from_last:
  "j < n \<Longrightarrow> n \<le> length ps \<Longrightarrow> is_large_text (ps ! j) \<Longrightarrow>
   (\<And>k. j < k \<Longrightarrow> k < n \<Longrightarrow> \<not> is_large_text (ps ! k)) \<Longrightarrow>
   mark_from n ps = ps[j := set_cache_control (ps ! j)]"
proof (induction n)
  case 0
  then show ?case by simp
next
  case (Suc n)
  show ?case
  proof (cases "j = n")
    case True
    with Suc.prems show ?thesis by simp
  next
    case False
    with Suc.prems have jn: "j < n" by simp
    from Suc.prems jn have "\<not> is_large_text (ps ! n)" by simp
    moreover have "mark_from n ps = ps[j := set_cache_control (ps ! j)]"
      using Suc.IH [OF jn] Suc.prems by simp
    ultimately show ?thesis by simp
  qed
qed

lemma last_large_mark:
  assumes "last_large ps j"
  shows "mark_from (length ps) ps = ps[j := set_cache_control (ps ! j)]"
proof (rule mark_from_last)
  show "j < length ps" "is_large_text (ps ! j)" using assms by (simp_all add: last_large_def)
  show "length ps \<le> length ps" by simp
  fix k assume "j < k" "k < length ps"
  then have "drop (Suc j) ps ! (k - Suc j) = ps ! k" "k - Suc j < length (drop (Suc j) ps)"
    by simp_all
  then have "ps ! k \<in> set (drop (Suc j) ps)"
    by (metis nth_mem)
  with assms show "\<not> is_large_text (ps ! k)"
    by (auto simp: last_large_def list_ex_iff)
qed

lemma has_marker_set_cache_control:
  "is_large_text p \<Longrightarrow> has_marker (set_cache_control p)"
  by (cases p) (simp_all add: is_large_text_def set_cache_control_def has_marker_def)

lemma filter_eq_index: "filter (\<lambda>i. i = j) [0 ..< n] = (if j < n then [j] else [])"
  by (induction n) auto

lemma marked_indices_update:
  assumes "j < length ps" "\<not> list_ex has_marker ps" "has_marker x" "content m = Parts (ps[j := x])"
  shows "marked_indices m = [j]"
proof -
  have "filter (\<lambda>i. has_marker (ps[j := x] ! i)) [0 ..< length ps]
      = filter (\<lambda>i. i = j) [0 ..< length ps]"
  proof (rule filter_cong [OF refl])
    fix i assume "i \<in> set [0 ..< length ps]"
    then have i: "i < length ps" by simp
    show "has_marker (ps[j := x] ! i) = (i = j)"
    proof (cases "i = j")
      case True
      with assms show ?thesis by simp
    next
      case False
      with i assms(2) show ?thesis by (auto simp: list_ex_iff)
    qed
  qed
  with assms show ?thesis by (simp add: marked_indices_def parts_of_def filter_eq_index)
qed

definition long_text :: string where
  "long_text = replicate 4001 CHR ''x''"

lemma length_long_text: "length long_text = 4001"
  by (simp add: long_text_def)

text \<open>
  C6 (as amended). The messages of both request bodies are the caller's messages, each
  passed through \<open>cache_message\<close>. Scanning from the end, the first text part longer than 4000
  characters is the one part that \<open>cache_message\<close> changes, and it gets the ephemeral
  marker; a message with no such part is returned as it is; a string content longer than
  4000 characters becomes a one-part array bearing the marker, a shorter one is returned
  as it is. The message then carries the marker on exactly that one part provided no part
  of the caller's message carried a marker before: the copy keeps the markers of the input.
\<close>

theorem cache_marker_last_large:
  "(last_large ps j \<longrightarrow>
      cache_message \<lparr>role = r, content = Parts ps\<rparr>
        = \<lparr>role = r, content = Parts (ps[j := set_cache_control (ps ! j)])\<rparr>
      \<and> has_marker (set_cache_control (ps ! j))
      \<and> (\<not> list_ex has_marker ps \<longrightarrow>
           marked_indices (cache_message \<lparr>role = r, content = Parts ps\<rparr>) = [j]))
   \<and> (\<not> list_ex is_large_text qs \<longrightarrow>
      cache_message \<lparr>role = r, content = Parts qs\<rparr> = \<lparr>role = r, content = Parts qs\<rparr>)
   \<and> cache_message \<lparr>role = r, content = Str s\<rparr>
        = (if length s > 4000 then \<lparr>role = r, content = Parts [TextPart s (Some Ephemeral)]\<rparr>
           else \<lparr>role = r, content = Str s\<rparr>)
   \<and> req_messages (send_request messages options) = map cache_message messages
   \<and> req_messages (stream_request messages options) = map cache_message messages"
proof (intro conjI impI)
  assume a: "last_large ps j"
  then have j: "j < length ps" "is_large_text (ps ! j)" by (simp_all add: last_large_def)
  show c: "cache_message \<lparr>role = r, content = Parts ps\<rparr>
        = \<lparr>role = r, content = Parts (ps[j := set_cache_control (ps ! j)])\<rparr>"
    using a by (simp add: cache_message_def last_large_mark)
  show m: "has_marker (set_cache_control (ps ! j))"
    using j by (simp add: has_marker_set_cache_control)
  assume "\<not> list_ex has_marker ps"
  then show "marked_indices (cache_message \<lparr>role = r, content = Parts ps\<rparr>) = [j]"
    using marked_indices_update [OF j(1) _ m] c by simp
next
  assume "\<not> list_ex is_large_text qs"
  then show "cache_message \<lparr>role = r, content = Parts qs\<rparr> = \<lparr>role = r, content = Parts qs\<rparr>"
    by (simp add: cache_message_def mark_from_none)
next
  show "cache_message \<lparr>role = r, content = Str s\<rparr>
        = (if length s > 4000 then \<lparr>role = r, content = Parts [TextPart s (Some Ephemeral)]\<rparr>
           else \<lparr>role = r, content = Str s\<rparr>)"
    by (simp add: cache_message_def)
next
  show "req_messages (send_request messages options) = map cache_message messages"
    by (simp add: send_request_def cachedMessages_def)
next
  show "req_messages (stream_request messages options) = map cache_message messages"
    by (simp add: stream_request_def cachedMessages_def)
qed

theorem cache_marker_last_large_witness:
  "last_large [TextPart long_text None, TextPart long_text None, ImagePart ''u'' Auto, TextPart ''tail'' None] 1
   \<and> \<not> list_ex has_marker [TextPart long_text None, TextPart long_text None, ImagePart ''u'' Auto, TextPart ''tail'' None]
   \<and> \<not> list_ex is_large_text [TextPart ''Hello'' None]
   \<and> cache_message \<lparr>role = User, content = Parts [TextPart long_text None, TextPart long_text None, ImagePart ''u'' Auto, TextPart ''tail'' None]\<rparr>
       = \<lparr>role = User, content = Parts [TextPart long_text None, TextPart long_text (Some Ephemeral), ImagePart ''u'' Auto, TextPart ''tail'' None]\<rparr>
   \<and> marked_indices (cache_message \<lparr>role = User, content = Parts [TextPart long_text None, TextPart long_text None, ImagePart ''u'' Auto, TextPart ''tail'' None]\<rparr>) = [1]
   \<and> cache_message \<lparr>role = User, content = Parts [TextPart ''Hello'' None]\<rparr>
       = \<lparr>role = User, content = Parts [TextPart ''Hello'' None]\<rparr>
   \<and> cache_message \<lparr>role = User, content = Str long_text\<rparr>
       = \<lparr>role = User, content = Parts [TextPart long_text (Some Ephemeral)]\<rparr>"
proof -
  have h1: "last_large [TextPart long_text None, TextPart long_text None, ImagePart ''u'' Auto, TextPart ''tail'' None] 1"
    by (simp add: last_large_def is_large_text_def length_long_text)
  have h2: "\<not> list_ex has_marker [TextPart long_text None, TextPart long_text None, ImagePart ''u'' Auto, TextPart ''tail'' None]"
    by (simp add: has_marker_def)
  have h3: "\<not> list_ex is_large_text [TextPart ''Hello'' None]"
    by (simp add: is_large_text_def)
  note t = cache_marker_last_large [of "[TextPart long_text None, TextPart long_text None, ImagePart ''u'' Auto, TextPart ''tail'' None]"
        1 User "[TextPart ''Hello'' None]" long_text]
  from t h1 have c: "cache_message \<lparr>role = User, content = Parts [TextPart long_text None, TextPart long_text None, ImagePart ''u'' Auto, TextPart ''tail'' None]\<rparr>
       = \<lparr>role = User, content = Parts [TextPart long_text None, TextPart long_text (Some Ephemeral), ImagePart ''u'' Auto, TextPart ''tail'' None]\<rparr>"
    by (simp add: set_cache_control_def)
  from t h1 h2 have m: "marked_indices (cache_message \<lparr>role = User, content = Parts [TextPart long_text None, TextPart long_text None, ImagePart ''u'' Auto, TextPart ''tail'' None]\<rparr>) = [1]"
    by blast
  from t h3 have u: "cache_message \<lparr>role = User, content = Parts [TextPart ''Hello'' None]\<rparr>
       = \<lparr>role = User, content = Parts [TextPart ''Hello'' None]\<rparr>"
    by blast
  from t have s: "cache_message \<lparr>role = User, content = Str long_text\<rparr>
       = \<lparr>role = User, content = Parts [TextPart long_text (Some Ephemeral)]\<rparr>"
    by (simp add: length_long_text)
  from h1 h2 h3 c m u s show ?thesis by blast
qed

text \<open>
  C6 as stated fails when the caller's message already carries a marker: the marker of
  the first part is copied and the last large text part is marked as well, so two parts
  of the transformed message carry the marker.
\<close>

theorem cache_marker_twice_counterexample:
  "marked_indices (cache_message \<lparr>role = User, content =
      Parts [TextPart ''summary'' (Some Ephemeral), TextPart long_text None]\<rparr>) = [0, 1]"
  by (simp add: marked_indices_def parts_of_def cache_message_def numeral_2_eq_2
      is_large_text_def length_long_text set_cache_control_def has_marker_def upt_rec)

section \<open>Plugins\<close>

text \<open>
  C7. handleSendMessage puts the web plugin into the options when web search is active,
  and neither request body built by the provider has a \<open>plugins\<close> key: the provider
  never reads \<open>options.plugins\<close>.
\<close>

theorem plugins_never_emitted:
  "plugins (handleSendMessage_options True v currentModel t n) = Some [DEFAULT_WEB_PLUGIN]
   \<and> req_plugins (stream_request messages (handleSendMessage_options True v currentModel t n)) = None
   \<and> req_plugins (stream_request messages options) = None
   \<and> req_plugins (send_request messages options) = None"
  by (simp add: handleSendMessage_options_def stream_request_def send_request_def)

section \<open>Decoder lemmas\<close>

lemma split_newline_ne: "split_newline s \<noteq> []"
  by (induction s) (auto split: list.splits)

lemma split_newline_append:
  "split_newline (a @ b) = butlast (split_newline a) @ split_newline (last (split_newline a) @ b)"
proof (induction a)
  case Nil
  show ?case by simp
next
  case (Cons c a)
  show ?case
  proof (cases "c = CHR 0x0A")
    case True
    with Cons show ?thesis by (simp add: split_newline_ne)
  next
    case False
    obtain l ls where sa: "split_newline a = l # ls"
      using split_newline_ne [of a] by (cases "split_newline a") auto
    show ?thesis
    proof (cases ls)
      case Nil
      with sa Cons False show ?thesis by simp
    next
      case (Cons x xs)
      with sa Cons.IH False show ?thesis by simp
    qed
  qed
qed

lemma process_lines_append:
  "process_lines P rc (xs @ ys) =
     (if snd (process_lines P rc xs) then process_lines P rc xs
      else (fst (process_lines P rc xs) @ fst (process_lines P rc ys), snd (process_lines P rc ys)))"
  by (induction xs) (auto simp: Let_def)

lemma advance_no_timers: "timers s = [] \<Longrightarrow> advance t s = s\<lparr>now := t\<rparr>"
  by (simp add: advance_def)

lemma decode_append:
  "decode P rc (a @ b) =
     (if snd (decode P rc a) then decode P rc a
      else (fst (decode P rc a) @ fst (decode P rc (last (split_newline a) @ b)),
            snd (decode P rc (last (split_newline a) @ b))))"
  by (simp add: decode_def complete_lines_def split_newline_append [of a b] butlast_append
      split_newline_ne process_lines_append)

lemma split_newline_no_nl: "CHR 0x0A \<notin> set b \<Longrightarrow> split_newline b = [b]"
  by (induction b) auto

lemma last_split_newline_no_nl: "CHR 0x0A \<notin> set (last (split_newline x))"
  by (induction x) (auto simp: split_newline_ne split: list.splits)

lemma decode_no_nl: "CHR 0x0A \<notin> set b \<Longrightarrow> decode P rc b = ([], False)"
  by (simp add: decode_def complete_lines_def split_newline_no_nl)

lemma read_loop_no_timers:
  "timers s = [] \<Longrightarrow> \<not> aborted s \<Longrightarrow> CHR 0x0A \<notin> set buf \<Longrightarrow>
   fst (read_loop P rc rs en buf s)
     = (if snd (decode P rc (buf @ concat (map snd rs))) then Returned else end_outcome en)
   \<and> trace (snd (read_loop P rc rs en buf s))
     = trace s @ fst (decode P rc (buf @ concat (map snd rs)))
        @ (if snd (decode P rc (buf @ concat (map snd rs))) then [] else end_events en)
   \<and> timers (snd (read_loop P rc rs en buf s)) = []
   \<and> \<not> aborted (snd (read_loop P rc rs en buf s))
   \<and> fetched (snd (read_loop P rc rs en buf s)) = fetched s"
proof (induction rs arbitrary: buf s)
  case Nil
  then show ?case
    by (simp add: advance_no_timers emit_def end_events_def end_outcome_def decode_no_nl
        split: stream_end.splits)
next
  case (Cons r rs)
  obtain d v where r: "r = (d, v)" by (cases r)
  let ?s' = "emit (fst (decode P rc (buf @ v))) (advance (now s + d) s)"
  have s': "timers ?s' = []" "\<not> aborted ?s'" "fetched ?s' = fetched s"
    "trace ?s' = trace s @ fst (decode P rc (buf @ v))"
    using Cons.prems by (simp_all add: advance_no_timers emit_def)
  have dec: "decode P rc (buf @ v @ concat (map snd rs)) =
     (if snd (decode P rc (buf @ v)) then decode P rc (buf @ v)
      else (fst (decode P rc (buf @ v)) @ fst (decode P rc (last (split_newline (buf @ v)) @ concat (map snd rs))),
            snd (decode P rc (last (split_newline (buf @ v)) @ concat (map snd rs)))))"
    using decode_append [of P rc "buf @ v" "concat (map snd rs)"] by simp
  show ?case
  proof (cases "snd (decode P rc (buf @ v))")
    case True
    with Cons.prems r dec show ?thesis
      by (simp add: decode_def [symmetric] complete_lines_def [symmetric] Let_def advance_no_timers emit_def)
  next
    case False
    note IH = Cons.IH [OF s'(1) s'(2) last_split_newline_no_nl, of "buf @ v"]
    from False Cons.prems r have "read_loop P rc (r # rs) en buf s
        = read_loop P rc rs en (last (split_newline (buf @ v))) ?s'"
      by (simp add: decode_def [symmetric] complete_lines_def [symmetric] Let_def)
    with IH s' dec False r show ?thesis by simp
  qed
qed


lemma take_drop_eq: "take n l = a \<and> drop n l = b \<Longrightarrow> l = a @ b"
  by (metis append_take_drop_id)

lemma startsWith_data: "startsWith l ''data: '' = (take 6 l = ''data: '')"
proof -
  have "length ''data: '' = 6" by simp
  then show ?thesis by (simp only: startsWith_def)
qed

lemma data_done_iff: "(startsWith l ''data: '' \<and> drop 6 l = ''[DONE]'') = (l = ''data: [DONE]'')"
proof
  assume "startsWith l ''data: '' \<and> drop 6 l = ''[DONE]''"
  then have "take 6 l = ''data: '' \<and> drop 6 l = ''[DONE]''" by (simp only: startsWith_data)
  from take_drop_eq [OF this] show "l = ''data: [DONE]''" by simp
next
  assume "l = ''data: [DONE]''"
  then show "startsWith l ''data: '' \<and> drop 6 l = ''[DONE]''" by (simp add: startsWith_data)
qed

lemma process_line_done: "snd (process_line P rc l) = (l = ''data: [DONE]'')"
proof (cases "l = ''data: [DONE]''")
  case True
  then show ?thesis
    by (simp add: process_line_def startsWith_data trim_def js_whitespace_def)
next
  case False
  then have "\<not> (startsWith l ''data: '' \<and> drop 6 l = ''[DONE]'')" by (simp add: data_done_iff)
  with False show ?thesis
    by (auto simp: process_line_def Let_def split: option.splits)
qed

lemma process_line_no_complete:
  "l \<noteq> ''data: [DONE]'' \<Longrightarrow> OnComplete \<notin> set (fst (process_line P rc l))"
  using process_line_done [of P rc l]
  by (auto simp: process_line_def Let_def frame_events_def split: option.splits if_splits)

lemma process_lines_closed_form:
  "process_lines P rc lines =
     (concat (map (\<lambda>l. fst (process_line P rc l)) (takeWhile (\<lambda>l. l \<noteq> ''data: [DONE]'') lines))
        @ (if ''data: [DONE]'' \<in> set lines then [OnComplete] else []),
      ''data: [DONE]'' \<in> set lines)"
proof (induction lines)
  case Nil
  show ?case by simp
next
  case (Cons l lines)
  show ?case
  proof (cases "l = ''data: [DONE]''")
    case True
    then have "process_line P rc l = ([OnComplete], True)"
      by (simp add: process_line_def startsWith_def trim_def js_whitespace_def)
    with True show ?thesis by simp
  next
    case False
    then have "\<not> snd (process_line P rc l)" by (simp add: process_line_done)
    with False Cons show ?thesis by (auto simp: Let_def)
  qed
qed


lemma read_loop_closes:
  assumes "timers s = []" "\<not> aborted s"
  shows "trace (snd (read_loop P rc rs (Closes e) [] s))
       = trace s @ fst (decode P rc (concat (map snd rs)))
           @ (if snd (decode P rc (concat (map snd rs))) then [] else [OnComplete])"
    and "fst (read_loop P rc rs (Closes e) [] s) = Returned"
  using read_loop_no_timers [OF assms, of "[]" P rc rs "Closes e"]
  by (simp_all add: end_events_def end_outcome_def)

section \<open>One attempt with no timer pending\<close>

lemma attempt_start:
  assumes "d < 30000"
  shows "advance (now s + d)
           (s\<lparr>timers := [(now s + 30000, True)], fetched := Suc (fetched s),
              trace := trace s @ [Fetch key req]\<rparr>)
       = s\<lparr>now := now s + d, timers := [(now s + 30000, True)], fetched := Suc (fetched s),
           trace := trace s @ [Fetch key req]\<rparr>"
  using assms by (simp add: advance_def)

lemma attempt_resolved:
  assumes "d < 30000"
  shows "clearTimeout (now s + 30000) (advance (now s + d)
           (s\<lparr>timers := [(now s + 30000, True)], fetched := Suc (fetched s),
              trace := trace s @ [Fetch key req]\<rparr>))
       = s\<lparr>now := now s + d, timers := [], fetched := Suc (fetched s),
           trace := trace s @ [Fetch key req]\<rparr>"
  using assms by (simp add: attempt_start clearTimeout_def)


lemma do_attempt_ok_stream:
  assumes "timers s = []" "\<not> aborted s" "d < 30000" "ok res" "body res = Some b"
  shows "do_attempt P rc key req (Responds d res) s
       = read_loop P rc (reads b) (ending b) []
           (s\<lparr>now := now s + d, timers := [], fetched := Suc (fetched s),
              trace := trace s @ [Fetch key req]\<rparr>)"
  using assms by (simp add: do_attempt_def Let_def attempt_resolved)


lemma do_attempt_null_body:
  assumes "timers s = []" "\<not> aborted s" "d < 30000" "ok res" "body res = None"
  shows "do_attempt P rc key req (Responds d res) s
       = (Thrown ''Response body is null'',
          s\<lparr>now := now s + d, timers := [], fetched := Suc (fetched s),
            trace := trace s @ [Fetch key req]\<rparr>)"
  using assms by (simp add: do_attempt_def Let_def attempt_resolved)




section \<open>The retry loop with no timer pending\<close>





section \<open>Chunk boundaries\<close>

text \<open>
  C3. A read loop that starts with an empty buffer and no timer pending (every attempt
  that no rejected fetch precedes) invokes the same callbacks for every way of cutting
  the transcript into chunks, whatever the reads take, and in particular the same as for
  the transcript in one chunk: the callbacks are those of the lines of the whole
  transcript that end in a line feed, in order, followed by \<open>onComplete\<close> when no line
  was \<open>[DONE]\<close>.
\<close>

theorem decoder_chunk_partition:
  "timers s = [] \<and> \<not> aborted s \<and> concat (map snd rs) = concat (map snd rs') \<longrightarrow>
     trace (snd (read_loop P rc rs (Closes e) [] s)) = trace (snd (read_loop P rc rs' (Closes e') [] s))
   \<and> trace (snd (read_loop P rc rs (Closes e) [] s))
       = trace (snd (read_loop P rc [(d, concat (map snd rs))] (Closes e') [] s))
   \<and> trace (snd (read_loop P rc rs (Closes e) [] s))
       = trace s @ fst (process_lines P rc (complete_lines (concat (map snd rs))))
           @ (if snd (process_lines P rc (complete_lines (concat (map snd rs)))) then [] else [OnComplete])
   \<and> fst (read_loop P rc rs (Closes e) [] s) = Returned"
proof (intro impI)
  assume a: "timers s = [] \<and> \<not> aborted s \<and> concat (map snd rs) = concat (map snd rs')"
  then have s: "timers s = []" "\<not> aborted s" by simp_all
  show "trace (snd (read_loop P rc rs (Closes e) [] s)) = trace (snd (read_loop P rc rs' (Closes e') [] s))
   \<and> trace (snd (read_loop P rc rs (Closes e) [] s))
       = trace (snd (read_loop P rc [(d, concat (map snd rs))] (Closes e') [] s))
   \<and> trace (snd (read_loop P rc rs (Closes e) [] s))
       = trace s @ fst (process_lines P rc (complete_lines (concat (map snd rs))))
           @ (if snd (process_lines P rc (complete_lines (concat (map snd rs)))) then [] else [OnComplete])
   \<and> fst (read_loop P rc rs (Closes e) [] s) = Returned"
    using a read_loop_closes [OF s, of P rc rs e] read_loop_closes [OF s, of P rc rs' e']
      read_loop_closes [OF s, of P rc "[(d, concat (map snd rs))]" e']
    by (simp add: decode_def)
qed

lemma cut_whole: "concat (map snd cut_reads) = concat (map snd whole_reads)"
  by (simp add: cut_reads_def whole_reads_def frame_hi_def frame_there_def LF_def)

theorem decoder_chunk_partition_witness:
  "timers initial_state = [] \<and> \<not> aborted initial_state
   \<and> concat (map snd cut_reads) = concat (map snd whole_reads)
   \<and> trace (snd (read_loop scenario_parser True cut_reads (Closes 3) [] initial_state))
       = trace (snd (read_loop scenario_parser True whole_reads (Closes 7) [] initial_state))
   \<and> trace (snd (read_loop scenario_parser True whole_reads (Closes 7) [] initial_state))
       = [OnChunk ''Hi'', OnChunk '' there'', OnComplete]"
proof -
  have h: "timers initial_state = [] \<and> \<not> aborted initial_state
      \<and> concat (map snd cut_reads) = concat (map snd whole_reads)"
    by (simp add: initial_state_def cut_whole)
  from decoder_chunk_partition [of initial_state cut_reads whole_reads scenario_parser True 3 7 0] h
  have e: "trace (snd (read_loop scenario_parser True cut_reads (Closes 3) [] initial_state))
       = trace (snd (read_loop scenario_parser True whole_reads (Closes 7) [] initial_state))"
    by blast
  have v: "trace (snd (read_loop scenario_parser True whole_reads (Closes 7) [] initial_state))
       = [OnChunk ''Hi'', OnChunk '' there'', OnComplete]"
    by (simp add: whole_reads_def initial_state_def advance_def emit_def process_line_def
        startsWith_def trim_def js_whitespace_def scenario_parser_def frame_events_def truthy_def
        frame_hi_def frame_there_def LF_def Let_def)
  from h e v show ?thesis by blast
qed


section \<open>Order of delivery and completion\<close>

lemma read_loop_in_order:
  assumes "timers s = []" "\<not> aborted s"
  shows "trace (snd (read_loop P rc rs (Closes e) [] s))
      = trace s @ concat (map (\<lambda>l. fst (process_line P rc l))
                  (takeWhile (\<lambda>l. l \<noteq> ''data: [DONE]'') (complete_lines (concat (map snd rs)))))
          @ [OnComplete]"
  using read_loop_closes(1) [OF assms, of P rc rs e]
  by (simp add: decode_def process_lines_closed_form)

lemma stream_loop_ok_stream:
  assumes "d < 30000" "ok res" "body res = Some b"
    and "env f = Responds d res"
    and "fst (read_loop P rc (reads b) (ending b) []
           \<lparr>now = n + d, timers = [], aborted = False, fetched = Suc f,
            trace = tr @ [Fetch key req]\<rparr>) = Returned"
  shows "stream_loop P rc key req env 0 \<lparr>now = n, timers = [], aborted = False, fetched = f, trace = tr\<rparr>
      = snd (read_loop P rc (reads b) (ending b) []
           \<lparr>now = n + d, timers = [], aborted = False, fetched = Suc f,
            trace = tr @ [Fetch key req]\<rparr>)"
  using assms
  by (subst stream_loop.simps) (auto simp: do_attempt_ok_stream MAX_RETRIES_def split: prod.splits outcome.splits)

lemma scenario_run:
  assumes P: "P frame_hi = Some \<lparr>delta_content = Some ''Hi'', delta_reasoning = None\<rparr>"
      "P frame_there = Some \<lparr>delta_content = Some '' there'', delta_reasoning = None\<rparr>"
  shows "read_loop P rc [(d1, ''data: '' @ frame_hi @ LF @ LF), (d2, ''data: '' @ frame_there @ LF @ LF),
             (d3, ''data: [DONE]'' @ LF @ LF)] en []
           \<lparr>now = n, timers = [], aborted = False, fetched = f, trace = tr\<rparr>
       = (Returned, \<lparr>now = n + d1 + d2 + d3, timers = [], aborted = False, fetched = f,
            trace = tr @ [OnChunk ''Hi'', OnChunk '' there'', OnComplete]\<rparr>)"
  using P
  by (simp add: advance_def emit_def process_line_def
        startsWith_def trim_def js_whitespace_def frame_events_def truthy_def
        frame_hi_def frame_there_def LF_def Let_def)


lemma prepareApiKey_sample: "prepareApiKey ''sk-or-v1-4f9a2c7e'' = Inr ''sk-or-v1-4f9a2c7e''"
  by (simp add: prepareApiKey_def trim_def js_whitespace_def toLowerCase_def startsWith_def Let_def)

text \<open>
  C4. The read loop of an attempt with no timer pending invokes, in stream order, the
  callbacks of the complete lines before the first line \<open>data: [DONE]\<close> and then
  \<open>onComplete\<close>, once and last: no line after the sentinel is inspected, and no other
  line invokes \<open>onComplete\<close>. In the scenario (any parser that reads the two frames as
  the scenario says, the server answering 200 within 30 seconds with the three frames)
  the call issues one fetch and invokes \<open>onChunk("Hi")\<close>, \<open>onChunk(" there")\<close>,
  \<open>onComplete()\<close> in that order, with no error and no timer left.
\<close>

theorem chunks_in_order_until_done:
  "(timers s = [] \<and> \<not> aborted s \<longrightarrow>
      trace (snd (read_loop P rc rs (Closes e) [] s))
        = trace s @ concat (map (\<lambda>l. fst (process_line P rc l))
                    (takeWhile (\<lambda>l. l \<noteq> ''data: [DONE]'') (complete_lines (concat (map snd rs)))))
            @ [OnComplete])
   \<and> (l \<noteq> ''data: [DONE]'' \<longrightarrow> OnComplete \<notin> set (fst (process_line P rc l)))
   \<and> (P frame_hi = Some \<lparr>delta_content = Some ''Hi'', delta_reasoning = None\<rparr>
      \<and> P frame_there = Some \<lparr>delta_content = Some '' there'', delta_reasoning = None\<rparr>
      \<and> prepareApiKey apiKey = Inr key \<and> d < 30000
      \<and> env f = Responds d \<lparr>status = 200, statusText = st, text_delay = td, error_message = em,
           body = Some \<lparr>reads = [(d1, ''data: '' @ frame_hi @ LF @ LF),
                                 (d2, ''data: '' @ frame_there @ LF @ LF),
                                 (d3, ''data: [DONE]'' @ LF @ LF)], ending = en\<rparr>\<rparr>
      \<longrightarrow> openRouter_streamResponse P hello_conversation apiKey rc m1_options env
            \<lparr>now = n, timers = [], aborted = a, fetched = f, trace = tr\<rparr>
          = (None, \<lparr>now = n + d + d1 + d2 + d3, timers = [], aborted = False, fetched = Suc f,
               trace = tr @ [Fetch key (stream_request hello_conversation m1_options),
                             OnChunk ''Hi'', OnChunk '' there'', OnComplete]\<rparr>))"
proof (intro conjI impI)
  assume "timers s = [] \<and> \<not> aborted s"
  then show "trace (snd (read_loop P rc rs (Closes e) [] s))
        = trace s @ concat (map (\<lambda>l. fst (process_line P rc l))
                    (takeWhile (\<lambda>l. l \<noteq> ''data: [DONE]'') (complete_lines (concat (map snd rs)))))
            @ [OnComplete]"
    by (simp add: read_loop_in_order)
next
  assume "l \<noteq> ''data: [DONE]''"
  then show "OnComplete \<notin> set (fst (process_line P rc l))" by (rule process_line_no_complete)
next
  let ?b = "\<lparr>reads = [(d1, ''data: '' @ frame_hi @ LF @ LF),
                                 (d2, ''data: '' @ frame_there @ LF @ LF),
                                 (d3, ''data: [DONE]'' @ LF @ LF)], ending = en\<rparr>"
  let ?res = "\<lparr>status = 200, statusText = st, text_delay = td, error_message = em, body = Some ?b\<rparr>"
  assume a: "P frame_hi = Some \<lparr>delta_content = Some ''Hi'', delta_reasoning = None\<rparr>
      \<and> P frame_there = Some \<lparr>delta_content = Some '' there'', delta_reasoning = None\<rparr>
      \<and> prepareApiKey apiKey = Inr key \<and> d < 30000
      \<and> env f = Responds d ?res"
  then have P: "P frame_hi = Some \<lparr>delta_content = Some ''Hi'', delta_reasoning = None\<rparr>"
      "P frame_there = Some \<lparr>delta_content = Some '' there'', delta_reasoning = None\<rparr>"
    by simp_all
  have ok: "ok ?res" "body ?res = Some ?b" by (simp_all add: ok_def)
  from a have d: "d < 30000" and e: "env f = Responds d ?res" by simp_all
  note run = scenario_run [OF P, of rc d1 d2 d3 en "n + d" "Suc f"
      "tr @ [Fetch key (stream_request hello_conversation m1_options)]"]
  have "stream_loop P rc key (stream_request hello_conversation m1_options) env 0
          \<lparr>now = n, timers = [], aborted = False, fetched = f, trace = tr\<rparr>
      = \<lparr>now = n + d + d1 + d2 + d3, timers = [], aborted = False, fetched = Suc f,
               trace = tr @ [Fetch key (stream_request hello_conversation m1_options),
                             OnChunk ''Hi'', OnChunk '' there'', OnComplete]\<rparr>"
    using stream_loop_ok_stream [where d = d and res = "?res" and b = "?b" and env = env and f = f
        and P = P and rc = rc and n = n and key = key and tr = tr
        and req = "stream_request hello_conversation m1_options"] d ok e run
    by simp
  with a show "openRouter_streamResponse P hello_conversation apiKey rc m1_options env
            \<lparr>now = n, timers = [], aborted = a, fetched = f, trace = tr\<rparr>
          = (None, \<lparr>now = n + d + d1 + d2 + d3, timers = [], aborted = False, fetched = Suc f,
               trace = tr @ [Fetch key (stream_request hello_conversation m1_options),
                             OnChunk ''Hi'', OnChunk '' there'', OnComplete]\<rparr>)"
    by (simp add: openRouter_streamResponse_def)
qed

theorem chunks_in_order_until_done_witness:
  "timers initial_state = [] \<and> \<not> aborted initial_state
   \<and> ''data: '' @ frame_hi \<noteq> ''data: [DONE]''
   \<and> scenario_parser frame_hi = Some \<lparr>delta_content = Some ''Hi'', delta_reasoning = None\<rparr>
   \<and> scenario_parser frame_there = Some \<lparr>delta_content = Some '' there'', delta_reasoning = None\<rparr>
   \<and> prepareApiKey ''sk-or-v1-4f9a2c7e'' = Inr ''sk-or-v1-4f9a2c7e'' \<and> (180::nat) < 30000
   \<and> trace (snd (read_loop scenario_parser True cut_reads (Closes 3) [] initial_state))
        = trace initial_state @ concat (map (\<lambda>l. fst (process_line scenario_parser True l))
                    (takeWhile (\<lambda>l. l \<noteq> ''data: [DONE]'') (complete_lines (concat (map snd cut_reads)))))
            @ [OnComplete]
   \<and> OnComplete \<notin> set (fst (process_line scenario_parser True (''data: '' @ frame_hi)))
   \<and> openRouter_streamResponse scenario_parser hello_conversation ''sk-or-v1-4f9a2c7e'' True m1_options
        scenario_env initial_state
      = (None, \<lparr>now = 255, timers = [], aborted = False, fetched = 1,
               trace = [Fetch ''sk-or-v1-4f9a2c7e'' (stream_request hello_conversation m1_options),
                        OnChunk ''Hi'', OnChunk '' there'', OnComplete]\<rparr>)"
proof -
  have h1: "timers initial_state = [] \<and> \<not> aborted initial_state" by (simp add: initial_state_def)
  have h2: "''data: '' @ frame_hi \<noteq> ''data: [DONE]''" by (simp add: frame_hi_def)
  have h3: "scenario_parser frame_hi = Some \<lparr>delta_content = Some ''Hi'', delta_reasoning = None\<rparr>"
    "scenario_parser frame_there = Some \<lparr>delta_content = Some '' there'', delta_reasoning = None\<rparr>"
    by (simp_all add: scenario_parser_def frame_hi_def frame_there_def)
  have h4: "prepareApiKey ''sk-or-v1-4f9a2c7e'' = Inr ''sk-or-v1-4f9a2c7e''" by (rule prepareApiKey_sample)
  have h5: "(180::nat) < 30000" by simp
  have h6: "scenario_env 0 = Responds 180 \<lparr>status = 200, statusText = ''OK'', text_delay = 0,
     error_message = None, body = Some \<lparr>reads = [(40, ''data: '' @ frame_hi @ LF @ LF),
         (25, ''data: '' @ frame_there @ LF @ LF), (10, ''data: [DONE]'' @ LF @ LF)], ending = Closes 2\<rparr>\<rparr>"
    by (simp add: scenario_env_def whole_reads_def)
  note t = chunks_in_order_until_done [where s = initial_state and P = scenario_parser and rc = True
      and rs = cut_reads and e = 3 and l = "''data: '' @ frame_hi" and apiKey = "''sk-or-v1-4f9a2c7e''"
      and key = "''sk-or-v1-4f9a2c7e''" and d = 180 and env = scenario_env and f = 0
      and st = "''OK''" and td = 0 and em = None and ?d1.0 = 40 and ?d2.0 = 25 and ?d3.0 = 10
      and en = "Closes 2" and n = 0 and a = False and tr = "[]"]
  from t h1 have c1: "trace (snd (read_loop scenario_parser True cut_reads (Closes 3) [] initial_state))
        = trace initial_state @ concat (map (\<lambda>l. fst (process_line scenario_parser True l))
                    (takeWhile (\<lambda>l. l \<noteq> ''data: [DONE]'') (complete_lines (concat (map snd cut_reads)))))
            @ [OnComplete]" by blast
  from t h2 have c2: "OnComplete \<notin> set (fst (process_line scenario_parser True (''data: '' @ frame_hi)))"
    by blast
  from t h3 h4 h5 h6 have c3: "openRouter_streamResponse scenario_parser hello_conversation ''sk-or-v1-4f9a2c7e'' True m1_options
        scenario_env initial_state
      = (None, \<lparr>now = 255, timers = [], aborted = False, fetched = 1,
               trace = [Fetch ''sk-or-v1-4f9a2c7e'' (stream_request hello_conversation m1_options),
                        OnChunk ''Hi'', OnChunk '' there'', OnComplete]\<rparr>)"
    by (simp add: initial_state_def)
  from h1 h2 h3 h4 h5 c1 c2 c3 show ?thesis by blast
qed


section \<open>Malformed frames\<close>

lemma split_newline_line:
  "CHR 0x0A \<notin> set l \<Longrightarrow> split_newline (l @ CHR 0x0A # B) = l # split_newline B"
  by (induction l) auto

lemma last_split_newline_boundary:
  assumes "A = [] \<or> last A = CHR 0x0A"
  shows "last (split_newline A) = []"
proof (cases "A = []")
  case True
  then show ?thesis by simp
next
  case False
  with assms have A: "A = butlast A @ [CHR 0x0A]"
    by (metis append_butlast_last_id)
  have "split_newline (butlast A @ [CHR 0x0A])
      = butlast (split_newline (butlast A)) @ [last (split_newline (butlast A)), []]"
    using split_newline_append [of "butlast A" "[CHR 0x0A]"]
      split_newline_line [OF last_split_newline_no_nl, of "butlast A" "[]"]
    by simp
  with A show ?thesis by (metis last_appendR last.simps list.distinct(1))
qed

lemma complete_lines_boundary:
  "A = [] \<or> last A = CHR 0x0A \<Longrightarrow> complete_lines (A @ B) = complete_lines A @ complete_lines B"
  by (simp add: complete_lines_def split_newline_append [of A B] last_split_newline_boundary
      butlast_append split_newline_ne)

lemma complete_lines_line:
  "CHR 0x0A \<notin> set l \<Longrightarrow> complete_lines (l @ CHR 0x0A # B) = l # complete_lines B"
  by (simp add: complete_lines_def split_newline_line split_newline_ne)

lemma complete_lines_Nil: "complete_lines [] = []"
  by (simp add: complete_lines_def)

lemma trim_data: "trim (''data: '' @ x) \<noteq> []"
  by (simp add: trim_def js_whitespace_def)

lemma process_line_data:
  "process_line P rc (''data: '' @ payload) =
     (if payload = ''[DONE]'' then ([OnComplete], True)
      else case P payload of None \<Rightarrow> ([], False) | Some d \<Rightarrow> (frame_events rc d, False))"
  using trim_data [of payload] by (simp add: process_line_def startsWith_def)

lemma process_line_empty: "process_line P rc [] = ([], False)"
  by (simp add: process_line_def trim_def)

lemma process_lines_drop:
  "process_line P rc l = ([], False) \<Longrightarrow>
   process_lines P rc (pre @ l # post) = process_lines P rc (pre @ post)"
  by (simp add: process_lines_append [of P rc pre] Let_def)

lemma decode_drop_malformed:
  assumes "P bad = None" "bad \<noteq> ''[DONE]''" "CHR 0x0A \<notin> set bad" "A = [] \<or> last A = CHR 0x0A"
  shows "decode P rc (A @ ''data: '' @ bad @ LF @ B) = decode P rc (A @ B)"
proof -
  have "CHR 0x0A \<notin> set (''data: '' @ bad)" using assms(3) by simp
  from complete_lines_line [OF this, of B]
  have "complete_lines (A @ ''data: '' @ bad @ LF @ B)
      = complete_lines A @ (''data: '' @ bad) # complete_lines B"
    using complete_lines_boundary [OF assms(4), of "''data: '' @ bad @ LF @ B"]
    by (simp add: LF_def)
  moreover have "process_line P rc (''data: '' @ bad) = ([], False)"
    using assms(1,2) process_line_data [of P rc bad] by simp
  ultimately show ?thesis
    using complete_lines_boundary [OF assms(4), of B]
    by (simp add: decode_def process_lines_drop)
qed

lemma sandwich_lines:
  assumes "CHR 0x0A \<notin> set f1" "CHR 0x0A \<notin> set bad" "CHR 0x0A \<notin> set f2"
  shows "complete_lines (''data: '' @ f1 @ LF @ LF @ ''data: '' @ bad @ LF @ LF @ ''data: '' @ f2 @ LF @ LF)
      = [''data: '' @ f1, [], ''data: '' @ bad, [], ''data: '' @ f2, []]"
proof -
  have n: "CHR 0x0A \<notin> set (''data: '' @ f1)" "CHR 0x0A \<notin> set (''data: '' @ bad)"
    "CHR 0x0A \<notin> set (''data: '' @ f2)" "CHR 0x0A \<notin> set []"
    using assms by simp_all
  show ?thesis
    using complete_lines_line [OF n(1)] complete_lines_line [OF n(2)] complete_lines_line [OF n(3)]
      complete_lines_line [OF n(4)]
    by (simp add: LF_def complete_lines_Nil)
qed


text \<open>
  C5. A data line whose payload does not parse (and is not the sentinel) invokes no
  callback and does not stop the loop: the lines before and after it are processed as if
  it were not there. So the read loop of an attempt with no timer pending, fed a
  transcript that has such a line at a line boundary, invokes the callbacks of the
  transcript without that line, however the transcript is cut into chunks; and for the
  transcript of a frame with content \<open>c1\<close>, a malformed frame and a frame with content
  \<open>c2\<close> it invokes \<open>onChunk(c1)\<close>, \<open>onChunk(c2)\<close> and, at the end of the stream,
  \<open>onComplete()\<close>.
\<close>

theorem malformed_frame_dropped:
  "(P bad = None \<and> bad \<noteq> ''[DONE]'' \<longrightarrow>
      process_lines P rc (pre @ (''data: '' @ bad) # post) = process_lines P rc (pre @ post))
   \<and> (timers s = [] \<and> \<not> aborted s \<and> P bad = None \<and> bad \<noteq> ''[DONE]'' \<and> CHR 0x0A \<notin> set bad
      \<and> (A = [] \<or> last A = CHR 0x0A)
      \<and> concat (map snd rs) = A @ ''data: '' @ bad @ LF @ B
      \<and> concat (map snd rs') = A @ B \<longrightarrow>
      trace (snd (read_loop P rc rs (Closes e) [] s)) = trace (snd (read_loop P rc rs' (Closes e') [] s)))
   \<and> (timers s = [] \<and> \<not> aborted s \<and> P bad = None \<and> bad \<noteq> ''[DONE]'' \<and> CHR 0x0A \<notin> set bad
      \<and> P f1 = Some \<lparr>delta_content = Some c1, delta_reasoning = None\<rparr> \<and> c1 \<noteq> []
      \<and> f1 \<noteq> ''[DONE]'' \<and> CHR 0x0A \<notin> set f1
      \<and> P f2 = Some \<lparr>delta_content = Some c2, delta_reasoning = None\<rparr> \<and> c2 \<noteq> []
      \<and> f2 \<noteq> ''[DONE]'' \<and> CHR 0x0A \<notin> set f2
      \<and> concat (map snd rs'') = ''data: '' @ f1 @ LF @ LF @ ''data: '' @ bad @ LF @ LF
                                  @ ''data: '' @ f2 @ LF @ LF \<longrightarrow>
      trace (snd (read_loop P rc rs'' (Closes e) [] s)) = trace s @ [OnChunk c1, OnChunk c2, OnComplete])"
proof (intro conjI impI)
  assume "P bad = None \<and> bad \<noteq> ''[DONE]''"
  then have "process_line P rc (''data: '' @ bad) = ([], False)"
    using process_line_data [of P rc bad] by simp
  then show "process_lines P rc (pre @ (''data: '' @ bad) # post) = process_lines P rc (pre @ post)"
    by (rule process_lines_drop)
next
  assume a: "timers s = [] \<and> \<not> aborted s \<and> P bad = None \<and> bad \<noteq> ''[DONE]'' \<and> CHR 0x0A \<notin> set bad
      \<and> (A = [] \<or> last A = CHR 0x0A)
      \<and> concat (map snd rs) = A @ ''data: '' @ bad @ LF @ B
      \<and> concat (map snd rs') = A @ B"
  then have s: "timers s = []" "\<not> aborted s" by simp_all
  from a have "decode P rc (concat (map snd rs)) = decode P rc (concat (map snd rs'))"
    using decode_drop_malformed [of P bad A rc B] by simp
  then show "trace (snd (read_loop P rc rs (Closes e) [] s)) = trace (snd (read_loop P rc rs' (Closes e') [] s))"
    using read_loop_closes(1) [OF s, of P rc rs e] read_loop_closes(1) [OF s, of P rc rs' e']
    by simp
next
  assume a: "timers s = [] \<and> \<not> aborted s \<and> P bad = None \<and> bad \<noteq> ''[DONE]'' \<and> CHR 0x0A \<notin> set bad
      \<and> P f1 = Some \<lparr>delta_content = Some c1, delta_reasoning = None\<rparr> \<and> c1 \<noteq> []
      \<and> f1 \<noteq> ''[DONE]'' \<and> CHR 0x0A \<notin> set f1
      \<and> P f2 = Some \<lparr>delta_content = Some c2, delta_reasoning = None\<rparr> \<and> c2 \<noteq> []
      \<and> f2 \<noteq> ''[DONE]'' \<and> CHR 0x0A \<notin> set f2
      \<and> concat (map snd rs'') = ''data: '' @ f1 @ LF @ LF @ ''data: '' @ bad @ LF @ LF
                                  @ ''data: '' @ f2 @ LF @ LF"
  then have s: "timers s = []" "\<not> aborted s" by simp_all
  from a have n: "CHR 0x0A \<notin> set f1" "CHR 0x0A \<notin> set bad" "CHR 0x0A \<notin> set f2" by simp_all
  have "decode P rc (concat (map snd rs'')) = ([OnChunk c1, OnChunk c2], False)"
    using a sandwich_lines [OF n] process_line_data [of P rc f1] process_line_data [of P rc bad]
      process_line_data [of P rc f2] process_line_empty [of P rc]
    by (simp add: decode_def Let_def frame_events_def truthy_def)
  then show "trace (snd (read_loop P rc rs'' (Closes e) [] s)) = trace s @ [OnChunk c1, OnChunk c2, OnComplete]"
    using read_loop_closes(1) [OF s, of P rc rs'' e] by simp
qed

theorem malformed_frame_dropped_witness:
  "scenario_parser frame_cut = None \<and> frame_cut \<noteq> ''[DONE]'' \<and> CHR 0x0A \<notin> set frame_cut
   \<and> timers initial_state = [] \<and> \<not> aborted initial_state
   \<and> (''data: '' @ frame_hi @ LF @ LF = [] \<or> last (''data: '' @ frame_hi @ LF @ LF) = CHR 0x0A)
   \<and> concat (map snd sandwich_reads)
       = (''data: '' @ frame_hi @ LF @ LF) @ ''data: '' @ frame_cut @ LF @ (LF @ ''data: '' @ frame_there @ LF @ LF)
   \<and> concat (map snd healthy_reads)
       = (''data: '' @ frame_hi @ LF @ LF) @ (LF @ ''data: '' @ frame_there @ LF @ LF)
   \<and> scenario_parser frame_hi = Some \<lparr>delta_content = Some ''Hi'', delta_reasoning = None\<rparr>
   \<and> ''Hi'' \<noteq> [] \<and> frame_hi \<noteq> ''[DONE]'' \<and> CHR 0x0A \<notin> set frame_hi
   \<and> scenario_parser frame_there = Some \<lparr>delta_content = Some '' there'', delta_reasoning = None\<rparr>
   \<and> '' there'' \<noteq> [] \<and> frame_there \<noteq> ''[DONE]'' \<and> CHR 0x0A \<notin> set frame_there
   \<and> concat (map snd sandwich_reads)
       = ''data: '' @ frame_hi @ LF @ LF @ ''data: '' @ frame_cut @ LF @ LF @ ''data: '' @ frame_there @ LF @ LF
   \<and> process_lines scenario_parser True ([''data: '' @ frame_hi, []] @ (''data: '' @ frame_cut) # [[], ''data: '' @ frame_there])
       = process_lines scenario_parser True ([''data: '' @ frame_hi, []] @ [[], ''data: '' @ frame_there])
   \<and> trace (snd (read_loop scenario_parser True sandwich_reads (Closes 3) [] initial_state))
       = trace (snd (read_loop scenario_parser True healthy_reads (Closes 9) [] initial_state))
   \<and> trace (snd (read_loop scenario_parser True sandwich_reads (Closes 3) [] initial_state))
       = trace initial_state @ [OnChunk ''Hi'', OnChunk '' there'', OnComplete]"
proof -
  have h1: "scenario_parser frame_cut = None \<and> frame_cut \<noteq> ''[DONE]''"
    by (simp add: scenario_parser_def frame_cut_def frame_hi_def frame_there_def)
  have h2: "CHR 0x0A \<notin> set frame_cut" "CHR 0x0A \<notin> set frame_hi" "CHR 0x0A \<notin> set frame_there"
    by (simp_all add: frame_cut_def frame_hi_def frame_there_def)
  have h3: "timers initial_state = []" "\<not> aborted initial_state" by (simp_all add: initial_state_def)
  have h4: "''data: '' @ frame_hi @ LF @ LF = [] \<or> last (''data: '' @ frame_hi @ LF @ LF) = CHR 0x0A"
    by (simp add: LF_def)
  have h5: "concat (map snd sandwich_reads)
       = (''data: '' @ frame_hi @ LF @ LF) @ ''data: '' @ frame_cut @ LF @ (LF @ ''data: '' @ frame_there @ LF @ LF)"
    "concat (map snd healthy_reads)
       = (''data: '' @ frame_hi @ LF @ LF) @ (LF @ ''data: '' @ frame_there @ LF @ LF)"
    "concat (map snd sandwich_reads)
       = ''data: '' @ frame_hi @ LF @ LF @ ''data: '' @ frame_cut @ LF @ LF @ ''data: '' @ frame_there @ LF @ LF"
    by (simp_all add: sandwich_reads_def healthy_reads_def)
  have h6: "scenario_parser frame_hi = Some \<lparr>delta_content = Some ''Hi'', delta_reasoning = None\<rparr>"
    "scenario_parser frame_there = Some \<lparr>delta_content = Some '' there'', delta_reasoning = None\<rparr>"
    "frame_hi \<noteq> ''[DONE]''" "frame_there \<noteq> ''[DONE]''" "''Hi'' \<noteq> []" "'' there'' \<noteq> []"
    by (simp_all add: scenario_parser_def frame_hi_def frame_there_def)
  note t = malformed_frame_dropped [where P = scenario_parser and bad = frame_cut and rc = True
      and pre = "[''data: '' @ frame_hi, []]" and post = "[[], ''data: '' @ frame_there]"
      and s = initial_state and A = "''data: '' @ frame_hi @ LF @ LF"
      and B = "LF @ ''data: '' @ frame_there @ LF @ LF" and rs = sandwich_reads and rs' = healthy_reads
      and e = 3 and e' = 9 and ?f1.0 = frame_hi and ?c1.0 = "''Hi''" and ?f2.0 = frame_there
      and ?c2.0 = "'' there''" and rs'' = sandwich_reads]
  from t h1 have c1: "process_lines scenario_parser True ([''data: '' @ frame_hi, []] @ (''data: '' @ frame_cut) # [[], ''data: '' @ frame_there])
       = process_lines scenario_parser True ([''data: '' @ frame_hi, []] @ [[], ''data: '' @ frame_there])"
    by blast
  from t h1 h2 h3 h4 h5 have c2: "trace (snd (read_loop scenario_parser True sandwich_reads (Closes 3) [] initial_state))
       = trace (snd (read_loop scenario_parser True healthy_reads (Closes 9) [] initial_state))"
    by blast
  from t h1 h2 h3 h5 h6 have c3: "trace (snd (read_loop scenario_parser True sandwich_reads (Closes 3) [] initial_state))
       = trace initial_state @ [OnChunk ''Hi'', OnChunk '' there'', OnComplete]"
    by blast
  from h1 h2 h3 h4 h5 h6 c1 c2 c3 show ?thesis by blast
qed


section \<open>The trace only grows\<close>










section \<open>Authentication errors and malformed bodies\<close>






lemma unauthorized_message:
  "status res = 401 \<Longrightarrow> send_attempt (Answers res) = Inl ''Authentication failed: Invalid API key.''"
  by (simp add: send_attempt_def ok_def handleApiError_def)











section \<open>Timeout\<close>















section \<open>Timers that outlive their attempt\<close>

lemmas run_defs = openRouter_streamResponse_def prepareApiKey_sample initial_state_def
  do_attempt_def advance_def clearTimeout_def emit_def fire_def Let_def
  process_line_def startsWith_def trim_def js_whitespace_def scenario_parser_def frame_events_def
  truthy_def frame_hi_def frame_there_def LF_def MAX_RETRIES_def RETRY_DELAY_def ok_def
  timeout_message_def

lemma xai_prepareApiKey_sample: "xai_prepareApiKey ''sk-or-v1-4f9a2c7e'' = Inr ''sk-or-v1-4f9a2c7e''"
  by (simp add: xai_prepareApiKey_def trim_def js_whitespace_def toLowerCase_def startsWith_def Let_def)

lemma digits_500: "digits 500 = ''500''"
  by code_simp

text \<open>
  C9. The first fetch is rejected after 100 ms, which leaves its timer pending; the second
  attempt starts at 1100 ms, is answered at 1300 ms and streams until 31310 ms. At
  30000 ms the timer of the first attempt fires during the second read: \<open>onError\<close> is
  invoked with the timeout message, the chunk just read is still delivered, the read loop
  ends on \<open>aborted\<close> and \<open>onComplete\<close> is invoked. Both callbacks fire in one logical
  call, through the provider and through \<open>xaiService.streamResponse\<close> alike.
\<close>

theorem stale_timer_error_and_complete:
  "trace (snd (openRouter_streamResponse scenario_parser hello_conversation ''sk-or-v1-4f9a2c7e'' True
       m1_options offline_then_slow_stream initial_state))
   = [Fetch ''sk-or-v1-4f9a2c7e'' (stream_request hello_conversation m1_options), Delay 1000,
      Fetch ''sk-or-v1-4f9a2c7e'' (stream_request hello_conversation m1_options),
      OnChunk ''Hi'', OnError ''Request timed out after 30 seconds'', OnChunk '' there'', OnComplete]
   \<and> trace (xai_streamResponse scenario_parser hello_conversation ''sk-or-v1-4f9a2c7e'' True
       m1_options offline_then_slow_stream initial_state)
   = [Fetch ''sk-or-v1-4f9a2c7e'' (stream_request (addMarkdownFormattingInstructions hello_conversation) m1_options),
      Delay 1000,
      Fetch ''sk-or-v1-4f9a2c7e'' (stream_request (addMarkdownFormattingInstructions hello_conversation) m1_options),
      OnChunk ''Hi'', OnError ''Request timed out after 30 seconds'', OnChunk '' there'', OnComplete]"
  by (simp add: run_defs stream_loop.simps offline_then_slow_stream_def xai_streamResponse_def
      xai_prepareApiKey_sample xai_stream_loop.simps)

text \<open>
  C1. Against a server that answers 500 to every request, \<open>xaiService.sendMessage\<close>
  issues nine fetches: each of its three attempts is a call of the provider's
  \<open>sendMessage\<close>, which makes three attempts of its own. And when every fetch of a
  streaming call is rejected, \<open>onError\<close> is invoked with the network error after the third
  attempt and then three more times, by the three timers that were never cleared.
\<close>

theorem nested_retries_and_late_errors:
  "xai_sendMessage hello_conversation ''sk-or-v1-4f9a2c7e'' m1_options always_server_error initial_send_state
   = (Inl ''Failed to get response from OpenRouter API: Failed to get response from OpenRouter API: Error: 500 Internal Server Error'',
      \<lparr>sent = 9, log = [
      Fetch ''sk-or-v1-4f9a2c7e'' (send_request (addMarkdownFormattingInstructions hello_conversation) m1_options), Delay 1000,
      Fetch ''sk-or-v1-4f9a2c7e'' (send_request (addMarkdownFormattingInstructions hello_conversation) m1_options), Delay 2000,
      Fetch ''sk-or-v1-4f9a2c7e'' (send_request (addMarkdownFormattingInstructions hello_conversation) m1_options), Delay 1000,
      Fetch ''sk-or-v1-4f9a2c7e'' (send_request (addMarkdownFormattingInstructions hello_conversation) m1_options), Delay 1000,
      Fetch ''sk-or-v1-4f9a2c7e'' (send_request (addMarkdownFormattingInstructions hello_conversation) m1_options), Delay 2000,
      Fetch ''sk-or-v1-4f9a2c7e'' (send_request (addMarkdownFormattingInstructions hello_conversation) m1_options), Delay 2000,
      Fetch ''sk-or-v1-4f9a2c7e'' (send_request (addMarkdownFormattingInstructions hello_conversation) m1_options), Delay 1000,
      Fetch ''sk-or-v1-4f9a2c7e'' (send_request (addMarkdownFormattingInstructions hello_conversation) m1_options), Delay 2000,
      Fetch ''sk-or-v1-4f9a2c7e'' (send_request (addMarkdownFormattingInstructions hello_conversation) m1_options)]\<rparr>)
   \<and> trace (settle (snd (openRouter_streamResponse scenario_parser hello_conversation ''sk-or-v1-4f9a2c7e'' True
       m1_options always_offline initial_state)))
   = [Fetch ''sk-or-v1-4f9a2c7e'' (stream_request hello_conversation m1_options), Delay 1000,
      Fetch ''sk-or-v1-4f9a2c7e'' (stream_request hello_conversation m1_options), Delay 2000,
      Fetch ''sk-or-v1-4f9a2c7e'' (stream_request hello_conversation m1_options),
      OnError ''Failed to fetch'', OnError ''Request timed out after 30 seconds'',
      OnError ''Request timed out after 30 seconds'', OnError ''Request timed out after 30 seconds'']"
proof -
  have a: "xai_sendMessage hello_conversation ''sk-or-v1-4f9a2c7e'' m1_options always_server_error initial_send_state
   = (Inl ''Failed to get response from OpenRouter API: Failed to get response from OpenRouter API: Error: 500 Internal Server Error'',
      \<lparr>sent = 9, log = [
      Fetch ''sk-or-v1-4f9a2c7e'' (send_request (addMarkdownFormattingInstructions hello_conversation) m1_options), Delay 1000,
      Fetch ''sk-or-v1-4f9a2c7e'' (send_request (addMarkdownFormattingInstructions hello_conversation) m1_options), Delay 2000,
      Fetch ''sk-or-v1-4f9a2c7e'' (send_request (addMarkdownFormattingInstructions hello_conversation) m1_options), Delay 1000,
      Fetch ''sk-or-v1-4f9a2c7e'' (send_request (addMarkdownFormattingInstructions hello_conversation) m1_options), Delay 1000,
      Fetch ''sk-or-v1-4f9a2c7e'' (send_request (addMarkdownFormattingInstructions hello_conversation) m1_options), Delay 2000,
      Fetch ''sk-or-v1-4f9a2c7e'' (send_request (addMarkdownFormattingInstructions hello_conversation) m1_options), Delay 2000,
      Fetch ''sk-or-v1-4f9a2c7e'' (send_request (addMarkdownFormattingInstructions hello_conversation) m1_options), Delay 1000,
      Fetch ''sk-or-v1-4f9a2c7e'' (send_request (addMarkdownFormattingInstructions hello_conversation) m1_options), Delay 2000,
      Fetch ''sk-or-v1-4f9a2c7e'' (send_request (addMarkdownFormattingInstructions hello_conversation) m1_options)]\<rparr>)"
    by (simp add: xai_sendMessage_def xai_prepareApiKey_sample xai_send_loop.simps openRouter_sendMessage_def
      prepareApiKey_sample send_loop.simps send_attempt_def always_server_error_def ok_def
      handleApiError_def digits_500 initial_send_state_def MAX_RETRIES_def RETRY_DELAY_def Let_def)
  have b: "trace (settle (snd (openRouter_streamResponse scenario_parser hello_conversation ''sk-or-v1-4f9a2c7e'' True
       m1_options always_offline initial_state)))
   = [Fetch ''sk-or-v1-4f9a2c7e'' (stream_request hello_conversation m1_options), Delay 1000,
      Fetch ''sk-or-v1-4f9a2c7e'' (stream_request hello_conversation m1_options), Delay 2000,
      Fetch ''sk-or-v1-4f9a2c7e'' (stream_request hello_conversation m1_options),
      OnError ''Failed to fetch'', OnError ''Request timed out after 30 seconds'',
      OnError ''Request timed out after 30 seconds'', OnError ''Request timed out after 30 seconds'']"
    by (simp add: run_defs stream_loop.simps always_offline_def settle_def)
  from a b show ?thesis by (rule conjI)
qed


section \<open>The caller's objects are never written\<close>

lemma alloc_prefix: "alloc obj h = (a, h') \<Longrightarrow> prefix h h' \<and> a = length h"
  by (auto simp: alloc_def)

lemma update_prefix:
  assumes "prefix h0 h" "length h0 \<le> a"
  shows "prefix h0 (h[a := x])"
proof -
  from assms(1) obtain zs where "h = h0 @ zs" by (auto simp: prefix_def)
  with assms(2) show ?thesis by (simp add: list_update_append)
qed

lemma put_prefix:
  assumes "prefix h0 h" "fresh h0 v"
  shows "prefix h0 (put v k x h)"
  using assms
  by (auto simp: put_def fresh_def update_prefix split: jsval.splits jsobj.splits)

lemma fresh_mono: "prefix h0 h \<Longrightarrow> fresh h v \<Longrightarrow> fresh h0 v"
  by (auto simp: fresh_def prefix_def split: jsval.splits)

lemma copy_all_prefix:
  "copy_all xs h = (rs, h') \<Longrightarrow> prefix h h' \<and> (\<forall>v\<in>set rs. fresh h v) \<and> length rs = length xs"
proof (induction xs arbitrary: h rs h')
  case Nil
  then show ?case by simp
next
  case (Cons x xs)
  obtain a h1 where a: "alloc (Object (fields_of h x)) h = (a, h1)"
    by (cases "alloc (Object (fields_of h x)) h")
  obtain rs1 h2 where c: "copy_all xs h1 = (rs1, h2)" by (cases "copy_all xs h1")
  from Cons.prems a c have r: "rs = Ref a # rs1" "h' = h2" by simp_all
  from alloc_prefix [OF a] have p1: "prefix h h1" "a = length h" by simp_all
  from Cons.IH [OF c] have p2: "prefix h1 h2" "\<forall>v\<in>set rs1. fresh h1 v" "length rs1 = length xs"
    by simp_all
  from p1 p2 have "prefix h h2" by (meson prefix_order.trans)
  moreover have "\<forall>v\<in>set rs1. fresh h v" using p1(1) p2(2) fresh_mono by blast
  moreover have "fresh h (Ref a)" using p1(2) by (simp add: fresh_def)
  ultimately show ?case using r p2(3) by simp
qed

lemma mark_loop_prefix:
  "prefix h0 h \<Longrightarrow> \<forall>v\<in>set parts. fresh h0 v \<Longrightarrow> i \<le> length parts \<Longrightarrow>
   prefix h0 (mark_loop i parts h)"
proof (induction i)
  case 0
  then show ?case by simp
next
  case (Suc i)
  then have f: "fresh h0 (parts ! i)" by simp
  have "prefix h0 (h @ [Object [(''type'', JStr ''ephemeral'')]])"
    using Suc.prems(1) by (rule prefix_prefix)
  then have "prefix h0 (put (parts ! i) ''cache_control'' (Ref (length h))
       (h @ [Object [(''type'', JStr ''ephemeral'')]]))"
    using f by (rule put_prefix)
  with Suc show ?case by (simp add: alloc_def)
qed

lemma cache_message_h_prefix: "prefix h (snd (cache_message_h m h))"
proof (cases "elements h (get h m ''content'')")
  case (Some ps)
  obtain parts h1 where c: "copy_all ps h = (parts, h1)" by (cases "copy_all ps h")
  from copy_all_prefix [OF c] have p1: "prefix h h1" "\<forall>v\<in>set parts. fresh h v" by simp_all
  have p2: "prefix h (h1 @ [Array parts])"
    using p1(1) by (rule prefix_prefix)
  have p3: "prefix h (mark_loop (length parts) parts (h1 @ [Array parts]))"
    using p2 p1(2) by (rule mark_loop_prefix) simp
  then have "\<And>obj. prefix h (mark_loop (length parts) parts (h1 @ [Array parts]) @ [obj])"
    by (rule prefix_prefix)
  with Some c show ?thesis
    by (simp add: cache_message_h_def alloc_def Let_def)
next
  case None
  then show ?thesis
    by (auto simp: cache_message_h_def alloc_def Let_def split: jsval.splits)
qed

lemma map_cache_message_prefix: "prefix h (snd (map_cache_message ms h))"
proof (induction ms arbitrary: h)
  case Nil
  show ?case by simp
next
  case (Cons m ms)
  have "prefix h (snd (cache_message_h m h))" by (rule cache_message_h_prefix)
  also have "prefix (snd (cache_message_h m h))
      (snd (map_cache_message ms (snd (cache_message_h m h))))"
    by (rule Cons.IH)
  finally show ?case by (simp add: split_beta Let_def)
qed

lemma cachedMessages_h_prefix: "prefix h (snd (cachedMessages_h messages h))"
proof (cases "elements h messages")
  case None
  then show ?thesis by (simp add: cachedMessages_h_def)
next
  case (Some ms)
  have "prefix h (snd (map_cache_message ms h))" by (rule map_cache_message_prefix)
  then have "\<And>obj. prefix h (snd (map_cache_message ms h) @ [obj])"
    by (rule prefix_prefix)
  with Some show ?thesis
    by (simp add: cachedMessages_h_def alloc_def split_beta Let_def)
qed

lemma findIndex_less: "findIndex p xs = Some i \<Longrightarrow> i < length xs"
  by (induction xs arbitrary: i) (auto split: if_splits)

lemma addMarkdownFormattingInstructions_h_prefix:
  "prefix h (snd (addMarkdownFormattingInstructions_h messages h))"
proof (cases "elements h messages")
  case None
  then show ?thesis by (simp add: addMarkdownFormattingInstructions_h_def)
next
  case (Some ms)
  obtain um h1 where c: "copy_all ms h = (um, h1)" by (cases "copy_all ms h")
  from copy_all_prefix [OF c] have p1: "prefix h h1" "\<forall>v\<in>set um. fresh h v" by simp_all
  let ?h2 = "h1 @ [Array um]"
  have p2: "prefix h ?h2" using p1(1) by (rule prefix_prefix)
  have len: "length h \<le> length h1" using p1(1) by (simp add: prefix_length_le)
  show ?thesis
  proof (cases "findIndex (\<lambda>msg. get ?h2 msg ''role'' = JStr ''system'') um")
    case None
    have "\<And>obj x. prefix h ((?h2 @ [obj])[length h1 := x])"
    proof (rule update_prefix)
      fix obj :: jsobj
      show "prefix h (?h2 @ [obj])" using p2 by (rule prefix_prefix)
      show "length h \<le> length h1" by (rule len)
    qed
    with Some c None show ?thesis
      by (simp add: addMarkdownFormattingInstructions_h_def alloc_def Let_def)
  next
    case (Some i)
    have i: "i < length um" using Some by (rule findIndex_less)
    then have "fresh h (um ! i)" using p1(2) by simp
    then have "\<And>k x. prefix h (put (um ! i) k x ?h2)" using p2 put_prefix by blast
    with \<open>elements h messages = Some ms\<close> c Some p2 show ?thesis
      by (auto simp: addMarkdownFormattingInstructions_h_def alloc_def Let_def split: jsval.splits)
  qed
qed

lemma provider_call_h_prefix: "prefix h (provider_call_h n messages h)"
proof (induction n arbitrary: h)
  case 0
  show ?case by simp
next
  case (Suc n)
  have "prefix h (snd (cachedMessages_h messages h))" by (rule cachedMessages_h_prefix)
  also have "prefix (snd (cachedMessages_h messages h))
      (provider_call_h n messages (snd (cachedMessages_h messages h)))" by (rule Suc.IH)
  finally show ?case by simp
qed

lemma xai_call_h_prefix: "prefix h (xai_call_h ks messages h)"
proof (induction ks arbitrary: h)
  case Nil
  show ?case by simp
next
  case (Cons k ks)
  let ?r = "addMarkdownFormattingInstructions_h messages h"
  have "prefix h (snd ?r)" by (rule addMarkdownFormattingInstructions_h_prefix)
  also have "prefix (snd ?r) (provider_call_h k (fst ?r) (snd ?r))" by (rule provider_call_h_prefix)
  also have "prefix (provider_call_h k (fst ?r) (snd ?r))
      (xai_call_h ks messages (provider_call_h k (fst ?r) (snd ?r)))" by (rule Cons.IH)
  finally show ?case by (simp add: split_beta)
qed

subsection \<open>The store model computes the message model\<close>

lemma fields_of_stable: "prefix h h' \<Longrightarrow> valid h v \<Longrightarrow> fields_of h' v = fields_of h v"
  by (auto simp: fields_of_def valid_def prefix_def nth_append split: jsval.splits)

lemma get_stable: "prefix h h' \<Longrightarrow> valid h v \<Longrightarrow> get h' v k = get h v k"
  by (simp add: get_def fields_of_stable)

lemma elements_stable: "prefix h h' \<Longrightarrow> valid h v \<Longrightarrow> elements h' v = elements h v"
  by (auto simp: elements_def valid_def prefix_def nth_append split: jsval.splits)

lemma get_defined_valid: "get h v k \<noteq> Undefined \<Longrightarrow> valid h v"
  by (auto simp: get_def fields_of_def valid_def split: jsval.splits if_splits)

lemma elements_valid: "elements h v = Some xs \<Longrightarrow> valid h v"
  by (auto simp: elements_def valid_def split: jsval.splits if_splits)

lemma read_media_stable:
  assumes "prefix h h'" "read_media h v = Some m"
  shows "read_media h' v = Some m"
proof -
  from assms(2) have "get h v ''url'' \<noteq> Undefined"
    by (auto simp: read_media_def split: jsval.splits)
  then have "valid h v" by (rule get_defined_valid)
  with assms show ?thesis by (auto simp: read_media_def get_stable split: jsval.splits)
qed

lemma read_part_valid: "read_part h v = Some p \<Longrightarrow> valid h v"
proof -
  assume "read_part h v = Some p"
  then have "get h v ''type'' \<noteq> Undefined"
    by (auto simp: read_part_def split: if_splits)
  then show ?thesis by (rule get_defined_valid)
qed

text \<open>What \<open>read_part\<close> reads of a value depends on its fields only, and on the media objects.\<close>

lemma read_part_fields:
  assumes "prefix h h'" "read_part h v = Some p" "fields_of h' w = fields_of h v"
  shows "read_part h' w = Some p"
proof -
  have g: "\<And>k. get h' w k = get h v k" using assms(3) by (simp add: get_def)
  have m: "\<And>k x. read_media h (get h v k) = Some x \<Longrightarrow> read_media h' (get h v k) = Some x"
    using assms(1) by (rule read_media_stable)
  show ?thesis
    using assms(2) m
    by (auto simp: read_part_def g split: if_splits jsval.splits)
qed

lemma read_part_stable:
  assumes "prefix h h'" "read_part h v = Some p"
  shows "read_part h' v = Some p"
  using assms read_part_fields [OF assms fields_of_stable [OF assms(1) read_part_valid [OF assms(2)]]]
  by simp


lemma those_map_iff: "those (map f xs) = Some ys \<longleftrightarrow> list_all2 (\<lambda>x y. f x = Some y) xs ys"
proof (induction xs arbitrary: ys)
  case Nil
  show ?case by auto
next
  case (Cons x xs)
  show ?case
  proof (cases "f x")
    case None
    then show ?thesis by (auto simp: list_all2_Cons1)
  next
    case (Some y)
    with Cons show ?thesis by (auto simp: list_all2_Cons1)
  qed
qed

lemma valid_mono: "prefix h h' \<Longrightarrow> valid h v \<Longrightarrow> valid h' v"
  by (auto simp: valid_def prefix_def split: jsval.splits)

lemma copy_all_closed:
  "\<forall>x\<in>set xs. valid h x \<Longrightarrow>
   copy_all xs h = (map Ref [length h ..< length h + length xs],
                    h @ map (\<lambda>x. Object (fields_of h x)) xs)"
proof (induction xs arbitrary: h)
  case Nil
  show ?case by simp
next
  case (Cons x xs)
  let ?h1 = "h @ [Object (fields_of h x)]"
  have p: "prefix h ?h1" by simp
  have v: "\<forall>y\<in>set xs. valid ?h1 y" using Cons.prems p valid_mono by (metis list.set_intros(2))
  have f: "map (\<lambda>y. Object (fields_of ?h1 y)) xs = map (\<lambda>y. Object (fields_of h y)) xs"
    using Cons.prems p by (auto simp: fields_of_stable)
  have u: "[length h ..< length h + Suc (length xs)]
      = length h # [Suc (length h) ..< Suc (length h) + length xs]"
    by (simp add: upt_rec)
  show ?case
    using Cons.IH [OF v] f u by (simp add: alloc_def)
qed

lemma fields_of_copy:
  assumes "i < length xs"
  shows "fields_of (h @ map (\<lambda>x. Object (fields_of h x)) xs) (Ref (length h + i)) = fields_of h (xs ! i)"
  using assms by (simp add: fields_of_def nth_append)

lemma get_put:
  "get (put v k x h) w k' =
     (if w = v \<and> k' = k \<and> (\<exists>a fs. v = Ref a \<and> a < length h \<and> h ! a = Object fs) then x
      else get h w k')"
proof (cases "\<exists>a fs. v = Ref a \<and> a < length h \<and> h ! a = Object fs")
  case False
  then have "put v k x h = h"
    by (auto simp: put_def split: jsval.splits jsobj.splits)
  with False show ?thesis by auto
next
  case True
  then obtain a fs where v: "v = Ref a" "a < length h" "h ! a = Object fs" by blast
  then have p: "put v k x h = h[a := Object (AList.update k x fs)]" by (simp add: put_def)
  show ?thesis
  proof (cases "w = v")
    case True
    with v p show ?thesis by (simp add: get_def fields_of_def AList.update_conv)
  next
    case False
    with v p have "fields_of (put v k x h) w = fields_of h w"
      by (auto simp: fields_of_def nth_list_update split: jsval.splits)
    with False show ?thesis by (simp add: get_def)
  qed
qed

lemma fields_of_put_other: "w \<noteq> v \<Longrightarrow> fields_of (put v k x h) w = fields_of h w"
  by (auto simp: fields_of_def put_def nth_list_update split: jsval.splits jsobj.splits)

lemma elements_put: "elements (put v k x h) w = elements h w"
  by (auto simp: elements_def put_def nth_list_update split: jsval.splits jsobj.splits)

lemma length_put: "length (put v k x h) = length h"
  by (auto simp: put_def split: jsval.splits jsobj.splits)

lemma read_media_put: "k \<noteq> ''url'' \<Longrightarrow> k \<noteq> ''detail'' \<Longrightarrow> read_media (put v k x h) w = read_media h w"
  by (auto simp: read_media_def get_put split: jsval.splits)

lemma read_part_put_other:
  "w \<noteq> v \<Longrightarrow> read_part (put v ''cache_control'' x h) w = read_part h w"
  by (simp add: read_part_def get_put read_media_put)

lemma read_part_put_same:
  assumes "read_part h v = Some p" "is_large_text p" "x \<noteq> Undefined"
  shows "read_part (put v ''cache_control'' x h) v = Some (set_cache_control p)"
proof -
  from assms(1) have "get h v ''type'' \<noteq> Undefined" by (auto simp: read_part_def split: if_splits)
  then have "\<exists>a fs. v = Ref a \<and> a < length h \<and> h ! a = Object fs"
    by (auto simp: get_def fields_of_def split: jsval.splits jsobj.splits if_splits)
  with assms show ?thesis
    by (auto simp: read_part_def get_put is_large_text_def set_cache_control_def
        split: if_splits jsval.splits part.splits)
qed

lemma is_large_text_h_read:
  "read_part h v = Some p \<Longrightarrow> is_large_text_h h v = is_large_text p"
  by (auto simp: read_part_def is_large_text_h_def is_large_text_def split: if_splits jsval.splits)


lemma mark_loop_reads:
  assumes "list_all2 (\<lambda>r p. read_part h r = Some p) rs ps" "distinct rs" "i \<le> length rs"
  shows "list_all2 (\<lambda>r p. read_part (mark_loop i rs h) r = Some p) rs (mark_from i ps)"
  using assms(3)
proof (induction i)
  case 0
  with assms(1) show ?case by simp
next
  case (Suc i)
  from assms(1) have len: "length rs = length ps" by (rule list_all2_lengthD)
  from Suc.prems have i: "i < length rs" by simp
  from assms(1) i have ri: "read_part h (rs ! i) = Some (ps ! i)" by (simp add: list_all2_conv_all_nth)
  show ?case
  proof (cases "is_large_text (ps ! i)")
    case False
    with ri Suc show ?thesis by (simp add: is_large_text_h_read)
  next
    case True
    let ?h1 = "h @ [Object [(''type'', JStr ''ephemeral'')]]"
    let ?h' = "put (rs ! i) ''cache_control'' (Ref (length h)) ?h1"
    have p: "prefix h ?h1" by simp
    have r1: "\<And>k. k < length rs \<Longrightarrow> read_part ?h1 (rs ! k) = Some (ps ! k)"
      using assms(1) read_part_stable [OF p] by (auto simp: list_all2_conv_all_nth)
    have "\<And>k. k < length rs \<Longrightarrow> read_part ?h' (rs ! k) = Some (ps[i := set_cache_control (ps ! i)] ! k)"
    proof -
      fix k assume k: "k < length rs"
      show "read_part ?h' (rs ! k) = Some (ps[i := set_cache_control (ps ! i)] ! k)"
      proof (cases "k = i")
        case True
        with i len r1 [OF i] \<open>is_large_text (ps ! i)\<close> show ?thesis
          by (simp add: read_part_put_same)
      next
        case False
        with k i assms(2) have "rs ! k \<noteq> rs ! i" by (simp add: nth_eq_iff_index_eq)
        with False r1 [OF k] show ?thesis by (simp add: read_part_put_other)
      qed
    qed
    then have "list_all2 (\<lambda>r p. read_part ?h' r = Some p) rs (ps[i := set_cache_control (ps ! i)])"
      using len by (simp add: list_all2_conv_all_nth)
    with True ri show ?thesis by (simp add: is_large_text_h_read alloc_def)
  qed
qed

lemma mark_loop_elements: "valid h v \<Longrightarrow> elements (mark_loop i rs h) v = elements h v"
proof (induction i)
  case 0
  show ?case by simp
next
  case (Suc i)
  have "prefix h (h @ [Object [(''type'', JStr ''ephemeral'')]])" by simp
  with Suc show ?case
    by (simp add: alloc_def elements_put elements_stable)
qed

lemma read_content_stable:
  assumes "prefix h h'" "read_content h v = Some c"
  shows "read_content h' v = Some c"
proof (cases v)
  case (JStr s)
  with assms show ?thesis by (simp add: read_content_def)
next
  case Undefined
  with assms show ?thesis by (simp add: read_content_def elements_def)
next
  case (Ref a)
  with assms(2) obtain xs ps where e: "elements h v = Some xs"
    and r: "list_all2 (\<lambda>x p. read_part h x = Some p) xs ps" and c: "c = Parts ps"
    by (auto simp: read_content_def those_map_iff split: option.splits)
  from e have "elements h' v = Some xs" using assms(1) by (simp add: elements_stable elements_valid)
  moreover from r have "list_all2 (\<lambda>x p. read_part h' x = Some p) xs ps"
    using read_part_stable [OF assms(1)] by (auto simp: list_all2_conv_all_nth)
  ultimately show ?thesis using Ref c by (simp add: read_content_def those_map_iff)
qed

lemma read_message_valid: "read_message h v = Some m \<Longrightarrow> valid h v"
proof -
  assume "read_message h v = Some m"
  then have "get h v ''role'' \<noteq> Undefined"
    by (auto simp: read_message_def read_role_def split: option.splits if_splits)
  then show ?thesis by (rule get_defined_valid)
qed

lemma read_message_stable:
  assumes "prefix h h'" "read_message h v = Some m"
  shows "read_message h' v = Some m"
proof -
  have v: "valid h v" using assms(2) by (rule read_message_valid)
  from assms(2) obtain r c where "read_role (get h v ''role'') = Some r"
    "read_content h (get h v ''content'') = Some c" "m = \<lparr>role = r, content = c\<rparr>"
    by (auto simp: read_message_def split: option.splits)
  then show ?thesis
    using assms(1) v read_content_stable [OF assms(1)]
    by (simp add: read_message_def get_stable)
qed


lemma read_new_message:
  assumes "valid h m" "read_role (get h m ''role'') = Some r" "read_content h c = Some cont"
  shows "read_message (h @ [Object (AList.update ''content'' c (fields_of h m))]) (Ref (length h))
       = Some \<lparr>role = r, content = cont\<rparr>"
proof -
  let ?h' = "h @ [Object (AList.update ''content'' c (fields_of h m))]"
  have p: "prefix h ?h'" by simp
  have g: "get ?h' (Ref (length h)) ''role'' = get h m ''role''"
    "get ?h' (Ref (length h)) ''content'' = c"
    by (simp_all add: get_def fields_of_def AList.update_conv)
  from read_content_stable [OF p assms(3)] assms(2) g show ?thesis
    by (simp add: read_message_def)
qed

lemma cache_message_h_refines:
  assumes "read_message h m = Some msg"
  shows "read_message (snd (cache_message_h m h)) (fst (cache_message_h m h)) = Some (cache_message msg)"
proof -
  have vm: "valid h m" using assms by (rule read_message_valid)
  from assms obtain r c where r: "read_role (get h m ''role'') = Some r"
    and c: "read_content h (get h m ''content'') = Some c" and msg: "msg = \<lparr>role = r, content = c\<rparr>"
    by (auto simp: read_message_def split: option.splits)
  show ?thesis
  proof (cases "elements h (get h m ''content'')")
    case None
    with c obtain s where s: "get h m ''content'' = JStr s" "c = Str s"
      by (auto simp: read_content_def split: jsval.splits)
    show ?thesis
    proof (cases "length s > 4000")
      case False
      with None s assms msg show ?thesis
        by (simp add: cache_message_h_def cache_message_def)
    next
      case True
      let ?h3 = "h @ [Object [(''type'', JStr ''ephemeral'')],
                      Object [(''type'', JStr ''text''), (''text'', JStr s), (''cache_control'', Ref (length h))],
                      Array [Ref (Suc (length h))]]"
      have p: "prefix h ?h3" by simp
      have "read_part ?h3 (Ref (Suc (length h))) = Some (TextPart s (Some Ephemeral))"
        by (simp add: read_part_def get_def fields_of_def nth_append)
      then have rc: "read_content ?h3 (Ref (Suc (Suc (length h)))) = Some (Parts [TextPart s (Some Ephemeral)])"
        by (simp add: read_content_def elements_def nth_append)
      have "valid ?h3 m" using p vm by (rule valid_mono)
      moreover have "read_role (get ?h3 m ''role'') = Some r" using r get_stable [OF p vm] by simp
      ultimately have "read_message (?h3 @ [Object (AList.update ''content'' (Ref (Suc (Suc (length h)))) (fields_of ?h3 m))])
          (Ref (length ?h3)) = Some \<lparr>role = r, content = Parts [TextPart s (Some Ephemeral)]\<rparr>"
        using rc by (rule read_new_message)
      with True None s msg show ?thesis
        by (simp add: cache_message_h_def cache_message_def alloc_def Let_def)
    qed
  next
    case (Some xs)
    with c obtain ps where ps: "list_all2 (\<lambda>x p. read_part h x = Some p) xs ps" and cp: "c = Parts ps"
      by (auto simp: read_content_def those_map_iff elements_def split: jsval.splits)
    define n where "n = length xs"
    define rs where "rs = map Ref [length h ..< length h + n]"
    define h1 where "h1 = h @ map (\<lambda>x. Object (fields_of h x)) xs"
    define h2 where "h2 = h1 @ [Array rs]"
    define h3 where "h3 = mark_loop n rs h2"
    have len: "length ps = n" "length rs = n" using ps by (simp_all add: list_all2_lengthD n_def rs_def)
    have vx: "\<forall>x\<in>set xs. valid h x"
      using ps read_part_valid by (auto simp: list_all2_conv_all_nth in_set_conv_nth)
    have ca: "copy_all xs h = (rs, h1)" using copy_all_closed [OF vx] by (simp add: rs_def h1_def n_def)
    have p1: "prefix h h1" by (simp add: h1_def)
    have p12: "prefix h1 h2" by (simp add: h2_def)
    have p2: "prefix h h2" using p1 p12 by (rule prefix_order.trans)
    have "\<And>k. k < n \<Longrightarrow> read_part h1 (rs ! k) = Some (ps ! k)"
    proof -
      fix k assume k: "k < n"
      then have "read_part h (xs ! k) = Some (ps ! k)" using ps by (simp add: list_all2_conv_all_nth n_def)
      moreover have "fields_of h1 (rs ! k) = fields_of h (xs ! k)"
        using k fields_of_copy [of k xs h] by (simp add: rs_def h1_def n_def)
      ultimately show "read_part h1 (rs ! k) = Some (ps ! k)" using p1 read_part_fields by blast
    qed
    then have r1: "list_all2 (\<lambda>r p. read_part h1 r = Some p) rs ps"
      using len by (simp add: list_all2_conv_all_nth)
    then have r2: "list_all2 (\<lambda>r p. read_part h2 r = Some p) rs ps"
      using read_part_stable [OF p12] by (auto simp: list_all2_conv_all_nth)
    have d: "distinct rs" by (simp add: rs_def distinct_map inj_on_def)
    have r3: "list_all2 (\<lambda>r p. read_part h3 r = Some p) rs (mark_from n ps)"
      using mark_loop_reads [OF r2 d, of n] len by (simp add: h3_def)
    have fr: "\<forall>v\<in>set rs. fresh h v" by (auto simp: fresh_def rs_def)
    have p3: "prefix h h3" unfolding h3_def using p2 fr by (rule mark_loop_prefix) (simp add: len)
    have "valid h2 (Ref (length h1))" by (simp add: valid_def h2_def)
    then have "elements h3 (Ref (length h1)) = elements h2 (Ref (length h1))"
      unfolding h3_def by (rule mark_loop_elements)
    moreover have "elements h2 (Ref (length h1)) = Some rs"
      by (simp add: elements_def h2_def)
    ultimately have e3: "elements h3 (Ref (length h1)) = Some rs" by (rule trans)
    have rc: "read_content h3 (Ref (length h1)) = Some (Parts (mark_from n ps))"
      using e3 r3 by (simp add: read_content_def those_map_iff)
    have "valid h3 m" using p3 vm by (rule valid_mono)
    moreover have "read_role (get h3 m ''role'') = Some r" using r get_stable [OF p3 vm] by simp
    ultimately have "read_message (h3 @ [Object (AList.update ''content'' (Ref (length h1)) (fields_of h3 m))])
        (Ref (length h3)) = Some \<lparr>role = r, content = Parts (mark_from n ps)\<rparr>"
      using rc by (rule read_new_message)
    moreover have "cache_message_h m h
        = (Ref (length h3), h3 @ [Object (AList.update ''content'' (Ref (length h1)) (fields_of h3 m))])"
      using Some ca len by (simp add: cache_message_h_def alloc_def Let_def h3_def h2_def)
    ultimately show ?thesis
      using msg cp len by (simp add: cache_message_def)
  qed
qed


lemma map_cache_message_refines:
  "list_all2 (\<lambda>v m. read_message h v = Some m) ms msgs \<Longrightarrow>
   list_all2 (\<lambda>v m. read_message (snd (map_cache_message ms h)) v = Some m)
     (fst (map_cache_message ms h)) (map cache_message msgs)"
proof (induction ms arbitrary: h msgs)
  case Nil
  then show ?case by simp
next
  case (Cons m ms)
  from Cons.prems obtain msg msgs' where msgs: "msgs = msg # msgs'"
    and m: "read_message h m = Some msg"
    and rest: "list_all2 (\<lambda>v m. read_message h v = Some m) ms msgs'"
    by (auto simp: list_all2_Cons1)
  define m' where "m' = fst (cache_message_h m h)"
  define h1 where "h1 = snd (cache_message_h m h)"
  define h2 where "h2 = snd (map_cache_message ms h1)"
  have p1: "prefix h h1" unfolding h1_def by (rule cache_message_h_prefix)
  have p2: "prefix h1 h2" unfolding h2_def by (rule map_cache_message_prefix)
  have "read_message h1 m' = Some (cache_message msg)"
    unfolding h1_def m'_def using m by (rule cache_message_h_refines)
  then have a: "read_message h2 m' = Some (cache_message msg)"
    using p2 read_message_stable by blast
  have "list_all2 (\<lambda>v m. read_message h1 v = Some m) ms msgs'"
    using rest read_message_stable [OF p1] by (auto simp: list_all2_conv_all_nth)
  then have b: "list_all2 (\<lambda>v m. read_message h2 v = Some m)
      (fst (map_cache_message ms h1)) (map cache_message msgs')"
    unfolding h2_def by (rule Cons.IH)
  have "map_cache_message (m # ms) h = (m' # fst (map_cache_message ms h1), h2)"
    by (simp add: split_beta Let_def m'_def h1_def h2_def)
  with a b msgs show ?case by simp
qed

lemma cachedMessages_h_refines:
  assumes "read_messages h v = Some msgs"
  shows "read_messages (snd (cachedMessages_h v h)) (fst (cachedMessages_h v h))
       = Some (cachedMessages msgs)"
proof -
  from assms obtain ms where e: "elements h v = Some ms"
    and r: "list_all2 (\<lambda>v m. read_message h v = Some m) ms msgs"
    by (auto simp: read_messages_def those_map_iff split: option.splits)
  define rs where "rs = fst (map_cache_message ms h)"
  define h1 where "h1 = snd (map_cache_message ms h)"
  have "list_all2 (\<lambda>v m. read_message h1 v = Some m) rs (map cache_message msgs)"
    unfolding rs_def h1_def using r by (rule map_cache_message_refines)
  moreover have p: "prefix h1 (h1 @ [Array rs])" by simp
  ultimately have "list_all2 (\<lambda>v m. read_message (h1 @ [Array rs]) v = Some m) rs (map cache_message msgs)"
    using read_message_stable [OF p] by (auto simp: list_all2_conv_all_nth)
  moreover have "cachedMessages_h v h = (Ref (length h1), h1 @ [Array rs])"
    using e by (simp add: cachedMessages_h_def alloc_def split_beta Let_def rs_def h1_def)
  ultimately show ?thesis
    by (simp add: read_messages_def elements_def those_map_iff cachedMessages_def)
qed


lemma read_message_fields:
  assumes "prefix h h'" "read_message h v = Some m" "fields_of h' w = fields_of h v"
  shows "read_message h' w = Some m"
proof -
  have g: "\<And>k. get h' w k = get h v k" using assms(3) by (simp add: get_def)
  from assms(2) obtain r c where "read_role (get h v ''role'') = Some r"
    "read_content h (get h v ''content'') = Some c" "m = \<lparr>role = r, content = c\<rparr>"
    by (auto simp: read_message_def split: option.splits)
  then show ?thesis
    using read_content_stable [OF assms(1)] by (simp add: read_message_def g)
qed

lemma findIndex_rel:
  "list_all2 (\<lambda>x y. P x = Q y) xs ys \<Longrightarrow> findIndex P xs = findIndex Q ys"
proof (induction xs arbitrary: ys)
  case Nil
  then show ?case by simp
next
  case (Cons x xs)
  then show ?case by (auto simp: list_all2_Cons1)
qed

lemma read_message_role:
  "read_message h v = Some m \<Longrightarrow> (get h v ''role'' = JStr ''system'') = (role m = System)"
  by (auto simp: read_message_def read_role_def split: option.splits if_splits)

lemma read_message_role_eq:
  assumes "read_message h v = Some m"
  shows "read_role (get h v ''role'') = Some (role m)"
proof -
  from assms obtain r c where "read_role (get h v ''role'') = Some r" "m = \<lparr>role = r, content = c\<rparr>"
    by (auto simp: read_message_def split: option.splits)
  then show ?thesis by simp
qed

lemma read_message_content:
  "read_message h v = Some m \<Longrightarrow> read_content h (get h v ''content'') = Some (content m)"
  by (auto simp: read_message_def split: option.splits)

lemma read_content_JStr: "read_content h v = Some c \<Longrightarrow> (v = JStr s) = (c = Str s)"
  by (auto simp: read_content_def split: jsval.splits option.splits)

lemma addMarkdownFormattingInstructions_h_refines:
  assumes "read_messages h v = Some msgs"
  shows "read_messages (snd (addMarkdownFormattingInstructions_h v h))
           (fst (addMarkdownFormattingInstructions_h v h))
       = Some (addMarkdownFormattingInstructions msgs)"
proof -
  from assms obtain ms where e: "elements h v = Some ms"
    and r: "list_all2 (\<lambda>v m. read_message h v = Some m) ms msgs"
    by (auto simp: read_messages_def those_map_iff split: option.splits)
  define n where "n = length ms"
  define rs where "rs = map Ref [length h ..< length h + n]"
  define h1 where "h1 = h @ map (\<lambda>x. Object (fields_of h x)) ms"
  define h2 where "h2 = h1 @ [Array rs]"
  have len: "length msgs = n" "length rs = n" "length h1 = length h + n"
    using r by (simp_all add: list_all2_lengthD n_def rs_def h1_def)
  have vx: "\<forall>x\<in>set ms. valid h x"
    using r read_message_valid by (auto simp: list_all2_conv_all_nth in_set_conv_nth)
  have ca: "copy_all ms h = (rs, h1)" using copy_all_closed [OF vx] by (simp add: rs_def h1_def n_def)
  have p2: "prefix h h2" by (simp add: h2_def h1_def)
  have rk: "\<And>k. k < n \<Longrightarrow> rs ! k = Ref (length h + k)" by (simp add: rs_def)
  have f2: "\<And>k. k < n \<Longrightarrow> fields_of h2 (rs ! k) = fields_of h (ms ! k)"
    using fields_of_copy [of _ ms h] by (simp add: rk h2_def h1_def n_def fields_of_def nth_append)
  have rm: "\<And>k. k < n \<Longrightarrow> read_message h (ms ! k) = Some (msgs ! k)"
    using r by (simp add: list_all2_conv_all_nth n_def)
  have r2: "\<And>k. k < n \<Longrightarrow> read_message h2 (rs ! k) = Some (msgs ! k)"
    using read_message_fields [OF p2 rm f2] by simp
  have e2: "elements h2 (Ref (length h1)) = Some rs" by (simp add: elements_def h2_def)
  have fi: "findIndex (\<lambda>msg. get h2 msg ''role'' = JStr ''system'') rs
      = findIndex (\<lambda>msg. role msg = System) msgs"
  proof (rule findIndex_rel)
    show "list_all2 (\<lambda>x y. (get h2 x ''role'' = JStr ''system'') = (role y = System)) rs msgs"
      using r2 len read_message_role by (auto simp: list_all2_conv_all_nth)
  qed
  have start: "addMarkdownFormattingInstructions_h v h =
     (case findIndex (\<lambda>msg. role msg = System) msgs of
        None \<Rightarrow>
          (Ref (length h1),
           (h2 @ [Object [(''role'', JStr ''system''),
                  (''content'', JStr default_system_content)]])
             [length h1 := Array (Ref (length h2) # rs)])
      | Some i \<Rightarrow>
          (case get h2 (rs ! i) ''content'' of
             JStr existingContent \<Rightarrow>
               if \<not> sublist ''Format your responses using Markdown'' existingContent
               then (Ref (length h1), put (rs ! i) ''content''
                                       (JStr (existingContent @ '' '' @ formattingText)) h2)
               else (Ref (length h1), h2)
           | _ \<Rightarrow> (Ref (length h1), h2)))"
    unfolding h2_def using e ca fi [unfolded h2_def]
    by (auto simp: addMarkdownFormattingInstructions_h_def alloc_def Let_def split: option.splits)
  show ?thesis
  proof (cases "findIndex (\<lambda>msg. role msg = System) msgs")
    case None
    define sys where "sys = Object [(''role'', JStr ''system''),
                  (''content'', JStr default_system_content)]"
    define h4 where "h4 = (h2 @ [sys])[length h1 := Array (Ref (length h2) # rs)]"
    have l2: "length h2 = Suc (length h1)" by (simp add: h2_def)
    have p4: "prefix h h4" unfolding h4_def
    proof (rule update_prefix)
      show "prefix h (h2 @ [sys])" using p2 by (rule prefix_prefix)
      show "length h \<le> length h1" by (simp add: len)
    qed
    have f4: "\<And>k. k < n \<Longrightarrow> fields_of h4 (rs ! k) = fields_of h (ms ! k)"
    proof -
      fix k assume k: "k < n"
      have "fields_of h4 (rs ! k) = fields_of h2 (rs ! k)"
        using k by (simp add: h4_def rk fields_of_def l2 len nth_append)
      with f2 [OF k] show "fields_of h4 (rs ! k) = fields_of h (ms ! k)" by simp
    qed
    have r4: "\<And>k. k < n \<Longrightarrow> read_message h4 (rs ! k) = Some (msgs ! k)"
      using read_message_fields [OF p4 rm f4] by simp
    have "h4 ! length h2 = sys" "length h2 < length h4" by (simp_all add: h4_def l2 nth_append)
    then have s4: "read_message h4 (Ref (length h2))
        = Some \<lparr>role = System, content = Str default_system_content\<rparr>"
      by (simp add: read_message_def read_role_def read_content_def get_def fields_of_def sys_def)
    have "h4 ! length h1 = Array (Ref (length h2) # rs)" "length h1 < length h4"
      by (simp_all add: h4_def l2)
    then have e4: "elements h4 (Ref (length h1)) = Some (Ref (length h2) # rs)"
      by (simp add: elements_def)
    have "list_all2 (\<lambda>v m. read_message h4 v = Some m) rs msgs"
      using r4 len by (simp add: list_all2_conv_all_nth)
    with s4 e4 have "read_messages h4 (Ref (length h1))
        = Some (\<lparr>role = System, content = Str default_system_content\<rparr> # msgs)"
      by (simp add: read_messages_def those_map_iff)
    with None start show ?thesis
      by (simp add: addMarkdownFormattingInstructions_def h4_def sys_def)
  next
    case (Some i)
    then have i: "i < n" using findIndex_less len by metis
    have ci: "read_content h2 (get h2 (rs ! i) ''content'') = Some (content (msgs ! i))"
      using r2 [OF i] by (rule read_message_content)
    have all2: "list_all2 (\<lambda>v m. read_message h2 v = Some m) rs msgs"
      using r2 len by (simp add: list_all2_conv_all_nth)
    then have same: "read_messages h2 (Ref (length h1)) = Some msgs"
      using e2 by (simp add: read_messages_def those_map_iff)
    show ?thesis
    proof (cases "content (msgs ! i)")
      case (Parts ps)
      with ci have "\<And>s. get h2 (rs ! i) ''content'' \<noteq> JStr s"
        using read_content_JStr by fastforce
      then have "addMarkdownFormattingInstructions_h v h = (Ref (length h1), h2)"
        using start Some by (auto split: jsval.splits)
      with same Some Parts show ?thesis by (simp add: addMarkdownFormattingInstructions_def)
    next
      case (Str existing)
      with ci have g: "get h2 (rs ! i) ''content'' = JStr existing"
        using read_content_JStr by fastforce
      show ?thesis
      proof (cases "sublist ''Format your responses using Markdown'' existing")
        case True
        with g start Some have "addMarkdownFormattingInstructions_h v h = (Ref (length h1), h2)"
          by simp
        with same Some Str True show ?thesis by (simp add: addMarkdownFormattingInstructions_def)
      next
        case False
        define new where "new = JStr (existing @ '' '' @ formattingText)"
        define h4 where "h4 = put (rs ! i) ''content'' new h2"
        have obj: "\<exists>a fs. rs ! i = Ref a \<and> a < length h2 \<and> h2 ! a = Object fs"
          using i by (auto simp: rk h2_def h1_def n_def nth_append)
        have fr: "fresh h (rs ! i)" using i by (simp add: rk fresh_def)
        have p4: "prefix h h4" unfolding h4_def using p2 fr by (rule put_prefix)
        have e4: "elements h4 (Ref (length h1)) = Some rs" using e2 by (simp add: h4_def elements_put)
        have "\<And>k. k < n \<Longrightarrow> read_message h4 (rs ! k) = Some (msgs[i := (msgs ! i)\<lparr>content := Str (existing @ '' '' @ formattingText)\<rparr>] ! k)"
        proof -
          fix k assume k: "k < n"
          show "read_message h4 (rs ! k) = Some (msgs[i := (msgs ! i)\<lparr>content := Str (existing @ '' '' @ formattingText)\<rparr>] ! k)"
          proof (cases "k = i")
            case False
            with k i have "rs ! k \<noteq> rs ! i" by (simp add: rk)
            then have "fields_of h4 (rs ! k) = fields_of h2 (rs ! k)"
              by (simp add: h4_def fields_of_put_other)
            with f2 [OF k] have "fields_of h4 (rs ! k) = fields_of h (ms ! k)" by simp
            with p4 rm [OF k] have "read_message h4 (rs ! k) = Some (msgs ! k)"
              by (rule read_message_fields)
            with False show ?thesis by simp
          next
            case True
            have "get h4 (rs ! i) ''role'' = get h2 (rs ! i) ''role''"
              "get h4 (rs ! i) ''content'' = new"
              using obj by (simp_all add: h4_def get_put)
            moreover from r2 [OF i] have "read_role (get h2 (rs ! i) ''role'') = Some (role (msgs ! i))"
              by (rule read_message_role_eq)
            ultimately have "read_message h4 (rs ! i)
                = Some \<lparr>role = role (msgs ! i), content = Str (existing @ '' '' @ formattingText)\<rparr>"
              by (simp add: read_message_def read_content_def new_def)
            with True i len show ?thesis by simp
          qed
        qed
        then have "list_all2 (\<lambda>v m. read_message h4 v = Some m) rs
            (msgs[i := (msgs ! i)\<lparr>content := Str (existing @ '' '' @ formattingText)\<rparr>])"
          using len by (simp add: list_all2_conv_all_nth)
        with e4 have "read_messages h4 (Ref (length h1))
            = Some (msgs[i := (msgs ! i)\<lparr>content := Str (existing @ '' '' @ formattingText)\<rparr>])"
          by (simp add: read_messages_def those_map_iff)
        moreover have "addMarkdownFormattingInstructions_h v h = (Ref (length h1), h4)"
          using g start Some False by (simp add: h4_def new_def)
        ultimately show ?thesis
          using Some Str False by (simp add: addMarkdownFormattingInstructions_def)
      qed
    qed
  qed
qed

lemma read_messages_stable:
  assumes "prefix h h'" "read_messages h v = Some msgs"
  shows "read_messages h' v = Some msgs"
proof -
  from assms(2) obtain ms where e: "elements h v = Some ms"
    and r: "list_all2 (\<lambda>v m. read_message h v = Some m) ms msgs"
    by (auto simp: read_messages_def those_map_iff split: option.splits)
  from e have "elements h' v = Some ms" using assms(1) by (simp add: elements_stable elements_valid)
  moreover from r have "list_all2 (\<lambda>v m. read_message h' v = Some m) ms msgs"
    using read_message_stable [OF assms(1)] by (auto simp: list_all2_conv_all_nth)
  ultimately show ?thesis by (simp add: read_messages_def those_map_iff)
qed

subsection \<open>Examples and the claim\<close>

lemma store_example:
  assumes "length t > 4000"
  shows "cachedMessages_h (Ref 0)
           [Array [Ref 1], Object [(''role'', JStr ''user''), (''content'', Ref 2)], Array [Ref 3],
            Object [(''type'', JStr ''text''), (''text'', JStr t)]]
         = (Ref 8,
            [Array [Ref 1], Object [(''role'', JStr ''user''), (''content'', Ref 2)], Array [Ref 3],
             Object [(''type'', JStr ''text''), (''text'', JStr t)],
             Object [(''type'', JStr ''text''), (''text'', JStr t), (''cache_control'', Ref 6)],
             Array [Ref 4], Object [(''type'', JStr ''ephemeral'')],
             Object [(''role'', JStr ''user''), (''content'', Ref 5)], Array [Ref 7]])"
  using assms
  by (simp add: cachedMessages_h_def elements_def cache_message_h_def get_def fields_of_def
      alloc_def is_large_text_h_def put_def Let_def)

lemma store_example_system:
  shows "addMarkdownFormattingInstructions_h (Ref 0)
           [Array [Ref 1], Object [(''role'', JStr ''system''), (''content'', JStr ''Be brief.'')]]
         = (Ref 3,
            [Array [Ref 1], Object [(''role'', JStr ''system''), (''content'', JStr ''Be brief.'')],
             Object [(''role'', JStr ''system''), (''content'', JStr (''Be brief. '' @ formattingText))],
             Array [Ref 2]])"
proof -
  have "\<not> sublist ''Format your responses using Markdown'' ''Be brief.''"
    by (auto simp: sublist_def dest!: arg_cong [where f = length])
  then show ?thesis
    by (simp add: addMarkdownFormattingInstructions_h_def elements_def get_def fields_of_def
      alloc_def put_def Let_def)
qed

text \<open>
  C10. Whatever the store holds and whatever the argument is, and however many attempts
  a call makes, every object that existed before a call of the provider or of
  \<open>xaiService\<close> is the same after it: the call only adds objects. A conversation that
  the store holds before the call reads the same after it, and what the two
  transformations return reads as \<open>cachedMessages\<close> and
  \<open>addMarkdownFormattingInstructions\<close> of it. The additions are the
  copies that carry the transformations: for a message with one long text part the
  marker is set on a copy of the part, in a new array of a new message object, and the
  formatting instructions are appended to the content of a copy of the system message.
  (The credential is a string, which no operation can change.)
\<close>

theorem input_never_mutated:
  "prefix h (provider_call_h n messages h) \<and> prefix h (xai_call_h ks messages h)
   \<and> (a < length h \<longrightarrow>
        provider_call_h n messages h ! a = h ! a \<and> xai_call_h ks messages h ! a = h ! a)
   \<and> (read_messages h messages = Some msgs \<longrightarrow>
        read_messages (provider_call_h n messages h) messages = Some msgs
        \<and> read_messages (xai_call_h ks messages h) messages = Some msgs
        \<and> read_messages (snd (cachedMessages_h messages h)) (fst (cachedMessages_h messages h))
            = Some (cachedMessages msgs)
        \<and> read_messages (snd (addMarkdownFormattingInstructions_h messages h))
              (fst (addMarkdownFormattingInstructions_h messages h))
            = Some (addMarkdownFormattingInstructions msgs))
   \<and> (length t > 4000 \<longrightarrow>
        cachedMessages_h (Ref 0) (sample_store t)
          = (Ref 8, sample_store t @
               [Object [(''type'', JStr ''text''), (''text'', JStr t), (''cache_control'', Ref 6)],
                Array [Ref 4], Object [(''type'', JStr ''ephemeral'')],
                Object [(''role'', JStr ''user''), (''content'', Ref 5)], Array [Ref 7]]))
   \<and> addMarkdownFormattingInstructions_h (Ref 0)
           [Array [Ref 1], Object [(''role'', JStr ''system''), (''content'', JStr ''Be brief.'')]]
         = (Ref 3,
            [Array [Ref 1], Object [(''role'', JStr ''system''), (''content'', JStr ''Be brief.'')],
             Object [(''role'', JStr ''system''), (''content'', JStr (''Be brief. '' @ formattingText))],
             Array [Ref 2]])"
proof (intro conjI impI)
  show p: "prefix h (provider_call_h n messages h)" by (rule provider_call_h_prefix)
  show q: "prefix h (xai_call_h ks messages h)" by (rule xai_call_h_prefix)
  assume "a < length h"
  then show "provider_call_h n messages h ! a = h ! a" "xai_call_h ks messages h ! a = h ! a"
    using p q by (auto simp: prefix_def nth_append)
next
  assume r: "read_messages h messages = Some msgs"
  show "read_messages (provider_call_h n messages h) messages = Some msgs"
    using provider_call_h_prefix r by (rule read_messages_stable)
  show "read_messages (xai_call_h ks messages h) messages = Some msgs"
    using xai_call_h_prefix r by (rule read_messages_stable)
  show "read_messages (snd (cachedMessages_h messages h)) (fst (cachedMessages_h messages h))
      = Some (cachedMessages msgs)"
    using r by (rule cachedMessages_h_refines)
  show "read_messages (snd (addMarkdownFormattingInstructions_h messages h))
        (fst (addMarkdownFormattingInstructions_h messages h))
      = Some (addMarkdownFormattingInstructions msgs)"
    using r by (rule addMarkdownFormattingInstructions_h_refines)
next
  assume "length t > 4000"
  then show "cachedMessages_h (Ref 0) (sample_store t)
          = (Ref 8, sample_store t @
               [Object [(''type'', JStr ''text''), (''text'', JStr t), (''cache_control'', Ref 6)],
                Array [Ref 4], Object [(''type'', JStr ''ephemeral'')],
                Object [(''role'', JStr ''user''), (''content'', Ref 5)], Array [Ref 7]])"
    using store_example [of t] by (simp add: sample_store_def)
next
  show "addMarkdownFormattingInstructions_h (Ref 0)
           [Array [Ref 1], Object [(''role'', JStr ''system''), (''content'', JStr ''Be brief.'')]]
         = (Ref 3,
            [Array [Ref 1], Object [(''role'', JStr ''system''), (''content'', JStr ''Be brief.'')],
             Object [(''role'', JStr ''system''), (''content'', JStr (''Be brief. '' @ formattingText))],
             Array [Ref 2]])"
    by (rule store_example_system)
qed

theorem input_never_mutated_witness:
  "(3::nat) < length (sample_store long_text) \<and> length long_text > 4000
   \<and> read_messages (sample_store long_text) (Ref 0)
       = Some [\<lparr>role = User, content = Parts [TextPart long_text None]\<rparr>]
   \<and> read_messages (xai_call_h [3, 3, 3] (Ref 0) (sample_store long_text)) (Ref 0)
       = Some [\<lparr>role = User, content = Parts [TextPart long_text None]\<rparr>]
   \<and> read_messages (snd (cachedMessages_h (Ref 0) (sample_store long_text)))
         (fst (cachedMessages_h (Ref 0) (sample_store long_text)))
       = Some (cachedMessages [\<lparr>role = User, content = Parts [TextPart long_text None]\<rparr>])
   \<and> provider_call_h 3 (Ref 0) (sample_store long_text) ! 3 = sample_store long_text ! 3
   \<and> xai_call_h [3, 3, 3] (Ref 0) (sample_store long_text) ! 3 = sample_store long_text ! 3
   \<and> prefix (sample_store long_text) (xai_call_h [3, 3, 3] (Ref 0) (sample_store long_text))
   \<and> cachedMessages_h (Ref 0) (sample_store long_text)
          = (Ref 8, sample_store long_text @
               [Object [(''type'', JStr ''text''), (''text'', JStr long_text), (''cache_control'', Ref 6)],
                Array [Ref 4], Object [(''type'', JStr ''ephemeral'')],
                Object [(''role'', JStr ''user''), (''content'', Ref 5)], Array [Ref 7]])"
proof -
  have h1: "(3::nat) < length (sample_store long_text)" by (simp add: sample_store_def)
  have h2: "length long_text > 4000" by (simp add: length_long_text)
  have h3: "read_messages (sample_store long_text) (Ref 0)
       = Some [\<lparr>role = User, content = Parts [TextPart long_text None]\<rparr>]"
    by (simp add: read_messages_def read_message_def read_role_def read_content_def read_part_def
        elements_def get_def fields_of_def sample_store_def)
  note t = input_never_mutated [where h = "sample_store long_text" and n = 3 and messages = "Ref 0"
      and ks = "[3, 3, 3]" and a = 3 and t = long_text
      and msgs = "[\<lparr>role = User, content = Parts [TextPart long_text None]\<rparr>]"]
  from t h1 h2 h3 show ?thesis by blast
qed

end
